theory Spec2Isabelle
  imports Main
begin

section \<open>Python values, errors and the random source\<close>

text \<open>
  Python integers are unbounded: they are \<open>int\<close>. A Python string is the list of its
  characters; the type \<open>char\<close> holds the code points up to U+00FF. The exceptions
  that the modelled code can raise are \<open>ValueError\<close> (with its message),
  \<open>ZeroDivisionError\<close> and, from the database driver, \<open>DBAPIError\<close> (with the
  message of the server); a function that can raise returns \<open>error + 'a\<close>.
\<close>

datatype error = ValueError string | ZeroDivisionError | DBAPIError string

text \<open>Sequencing of steps that can raise: the first exception ends the sequence.\<close>

definition bind_err :: "error + 'a \<Rightarrow> ('a \<Rightarrow> error + 'b) \<Rightarrow> error + 'b" where
  "bind_err x f = (case x of Inl e \<Rightarrow> Inl e | Inr v \<Rightarrow> f v)"

text \<open>
  The module \<open>secrets\<close> is the only source of non-determinism. It is modelled by the
  list of the integers that its successive calls return; a loop that draws until a
  condition holds is a recursion over that list, and \<open>None\<close> says that the list was
  used up before the loop ended.
\<close>

type_synonym tape = "int list"

subsection \<open>The built-in three-argument \<open>pow\<close>\<close>

text \<open>
  The loop of CPython's \<open>long_invmod(a, n)\<close>: the extended Euclidean algorithm on
  \<open>(a, n)\<close> with the coefficients \<open>(b, c)\<close>, started at \<open>(1, 0)\<close>.
\<close>

function invmod_loop :: "int \<Rightarrow> int \<Rightarrow> int \<Rightarrow> int \<Rightarrow> int \<times> int" where
  "invmod_loop a n b c =
     (if n = 0 then (a, b) else invmod_loop n (a mod n) c (b - (a div n) * c))"
  by pat_completeness auto
termination
  by (relation "measure (\<lambda>(a, n, b, c). nat \<bar>n\<bar>)") (auto simp: abs_mod_less)

declare invmod_loop.simps [simp del]

definition long_invmod :: "int \<Rightarrow> int \<Rightarrow> int option" where
  "long_invmod a n = (case invmod_loop a n 1 0 of (a', b') \<Rightarrow> if a' = 1 then Some b' else None)"

text \<open>
  \<open>pow(b, e, m)\<close> on integers: a zero modulus raises; a negative exponent replaces the
  base by its inverse modulo \<open>|m|\<close> and raises when there is none; the result has the
  sign of \<open>m\<close>, as the result of \<open>mod\<close> on \<open>int\<close> has.
\<close>

definition py_pow :: "int \<Rightarrow> int \<Rightarrow> int \<Rightarrow> error + int" where
  "py_pow b e m =
     (if m = 0 then Inl (ValueError ''pow() 3rd argument cannot be 0'')
      else if 0 \<le> e then Inr (b ^ nat e mod m)
      else (case long_invmod b \<bar>m\<bar> of
              None \<Rightarrow> Inl (ValueError ''base is not invertible for the given modulus'')
            | Some i \<Rightarrow> Inr (i ^ nat (- e) mod m)))"

section \<open>The Paillier cryptosystem (app/crypto/paillier.py)\<close>

record PublicKey =
  pub_n :: int
  pub_g :: int

record PrivateKey =
  priv_lam :: int
  priv_mu :: int
  priv_n :: int

text \<open>The property \<open>n_sq\<close> of both classes.\<close>

definition pub_n_sq :: "PublicKey \<Rightarrow> int" where
  "pub_n_sq pub = pub_n pub * pub_n pub"

definition priv_n_sq :: "PrivateKey \<Rightarrow> int" where
  "priv_n_sq priv = priv_n priv * priv_n priv"

text \<open>\<open>_lcm(a, b) = abs(a * b) // math.gcd(a, b)\<close>; the division raises on \<open>gcd = 0\<close>.\<close>

definition lcm_p :: "int \<Rightarrow> int \<Rightarrow> error + int" where
  "lcm_p a b = (if gcd a b = 0 then Inl ZeroDivisionError else Inr (\<bar>a * b\<bar> div gcd a b))"

text \<open>
  \<open>_is_probable_prime(n, rounds)\<close>. The loop \<open>while d % 2 == 0\<close> does not end on
  \<open>d = 0\<close>, which is the value \<open>None\<close> here; the caller only reaches it with
  \<open>d = n - 1 > 0\<close>.
\<close>

definition small_primes :: "int list" where
  "small_primes = [2, 3, 5, 7, 11, 13, 17, 19, 23, 29]"

function split_twos :: "int \<Rightarrow> int \<Rightarrow> (int \<times> int) option" where
  "split_twos d s =
     (if d = 0 then None
      else if d mod 2 = 0 then split_twos (d div 2) (s + 1)
      else Some (d, s))"
  by pat_completeness auto
termination
  by (relation "measure (\<lambda>(d, s). nat \<bar>d\<bar>)") auto

declare split_twos.simps [simp del]

text \<open>
  The inner \<open>for _ in range(s - 1)\<close> with its \<open>else\<close> branch: \<open>True\<close> when the loop
  was left by \<open>break\<close>, \<open>False\<close> when it ran to its end (the caller then returns
  \<open>False\<close>). The modulus is at least \<open>2\<close> here, so \<open>pow(x, 2, n)\<close> cannot raise.
\<close>

primrec witness_loop :: "nat \<Rightarrow> int \<Rightarrow> int \<Rightarrow> bool" where
  "witness_loop 0 x n = False"
| "witness_loop (Suc k) x n =
     (let x' = x ^ 2 mod n in if x' = n - 1 then True else witness_loop k x' n)"

text \<open>
  The outer \<open>for _ in range(rounds)\<close>; the list holds the values that
  \<open>secrets.randbelow(n - 3)\<close> returns during this test.
\<close>

fun mr_rounds :: "nat \<Rightarrow> int \<Rightarrow> int \<Rightarrow> int \<Rightarrow> tape \<Rightarrow> bool option" where
  "mr_rounds 0 n d s t = Some True"
| "mr_rounds (Suc k) n d s [] = None"
| "mr_rounds (Suc k) n d s (rb # t) =
     (let a = rb + 2; x = a ^ nat d mod n in
      if x = 1 \<or> x = n - 1 then mr_rounds k n d s t
      else if witness_loop (nat (s - 1)) x n then mr_rounds k n d s t
      else Some False)"

definition is_probable_prime :: "int \<Rightarrow> nat \<Rightarrow> tape \<Rightarrow> bool option" where
  "is_probable_prime n rounds t =
     (if n < 2 then Some False
      else if n \<in> set small_primes then Some True
      else if \<exists>p \<in> set small_primes. n mod p = 0 then Some False
      else case split_twos (n - 1) 0 of
             None \<Rightarrow> None
           | Some (d, s) \<Rightarrow> mr_rounds rounds n d s t)"

text \<open>
  \<open>_generate_prime(bits)\<close>. Each iteration of its \<open>while True\<close> loop is given as a pair:
  the value that \<open>secrets.randbits(bits)\<close> returns and the values that the primality
  test of that candidate draws. \<open>randbits\<close> raises on a negative argument, the shift
  \<open>1 << (bits - 1)\<close> raises on \<open>bits = 0\<close>; \<open>None\<close> says that the iterations given were
  used up.
\<close>

type_synonym attempt = "int \<times> tape"

fun generate_prime :: "int \<Rightarrow> attempt list \<Rightarrow> (error + int) option" where
  "generate_prime bits [] =
     (if bits < 0 then Some (Inl (ValueError ''number of bits must be non-negative''))
      else None)"
| "generate_prime bits ((rb, bases) # rest) =
     (if bits < 0 then Some (Inl (ValueError ''number of bits must be non-negative''))
      else if bits - 1 < 0 then Some (Inl (ValueError ''negative shift count''))
      else let candidate = or (or rb 1) (push_bit (nat (bits - 1)) 1) in
           case is_probable_prime candidate 16 bases of
             None \<Rightarrow> None
           | Some True \<Rightarrow> Some (Inr candidate)
           | Some False \<Rightarrow> generate_prime bits rest)"

text \<open>
  \<open>generate_keypair\<close> from the assignment \<open>n = p * q\<close> on, for the two values \<open>p\<close> and
  \<open>q\<close> that the calls of \<open>_generate_prime\<close> returned. There is no comparison of \<open>p\<close>
  with \<open>q\<close> in the source and none here.
\<close>

definition keypair_of_primes :: "int \<Rightarrow> int \<Rightarrow> error + (PublicKey \<times> PrivateKey)" where
  "keypair_of_primes p q =
     (let n = p * q in
      case lcm_p (p - 1) (q - 1) of
        Inl e \<Rightarrow> Inl e
      | Inr lam \<Rightarrow>
          let g = n + 1; n_sq = n * n in
          case py_pow g lam n_sq of
            Inl e \<Rightarrow> Inl e
          | Inr x \<Rightarrow>
              let l_val = (x - 1) div n in
              case py_pow l_val (- 1) n of
                Inl e \<Rightarrow> Inl e
              | Inr mu \<Rightarrow>
                  Inr (\<lparr>pub_n = n, pub_g = g\<rparr>, \<lparr>priv_lam = lam, priv_mu = mu, priv_n = n\<rparr>))"

text \<open>
  \<open>generate_keypair(bits)\<close>: two calls of \<open>_generate_prime(bits // 2)\<close>, each with the
  iterations of its own loop, then the computation above.
\<close>

definition generate_keypair ::
  "int \<Rightarrow> attempt list \<Rightarrow> attempt list \<Rightarrow> (error + (PublicKey \<times> PrivateKey)) option" where
  "generate_keypair bits tp tq =
     (case generate_prime (bits div 2) tp of
        None \<Rightarrow> None
      | Some (Inl e) \<Rightarrow> Some (Inl e)
      | Some (Inr p) \<Rightarrow>
          (case generate_prime (bits div 2) tq of
             None \<Rightarrow> None
           | Some (Inl e) \<Rightarrow> Some (Inl e)
           | Some (Inr q) \<Rightarrow> Some (keypair_of_primes p q)))"

text \<open>
  The \<open>while True\<close> loop of \<open>encrypt\<close> over the values that \<open>secrets.randbelow(pub.n)\<close>
  returns: the first one with \<open>1 <= r < n\<close> and \<open>gcd(r, n) == 1\<close> is kept.
\<close>

fun draw_r :: "int \<Rightarrow> tape \<Rightarrow> int option" where
  "draw_r n [] = None"
| "draw_r n (r_candidate # rest) =
     (if 1 \<le> r_candidate \<and> r_candidate < n \<and> gcd r_candidate n = 1
      then Some r_candidate else draw_r n rest)"

text \<open>
  \<open>encrypt(pub, m, r=None)\<close>. After the range check \<open>0 <= m < n\<close> the modulus
  \<open>n_sq\<close> is positive and both exponents are non-negative, so neither \<open>pow\<close> can raise;
  the model still goes through \<open>py_pow\<close>.
\<close>

definition encrypt :: "PublicKey \<Rightarrow> int \<Rightarrow> int option \<Rightarrow> tape \<Rightarrow> (error + int) option" where
  "encrypt pub m r t =
     (if \<not> (0 \<le> m \<and> m < pub_n pub) then Some (Inl (ValueError ''message out of range''))
      else case (case r of None \<Rightarrow> draw_r (pub_n pub) t | Some r' \<Rightarrow> Some r') of
             None \<Rightarrow> None
           | Some r' \<Rightarrow>
               Some (case py_pow (pub_g pub) m (pub_n_sq pub) of
                       Inl e \<Rightarrow> Inl e
                     | Inr c1 \<Rightarrow>
                         (case py_pow r' (pub_n pub) (pub_n_sq pub) of
                            Inl e \<Rightarrow> Inl e
                          | Inr c2 \<Rightarrow> Inr ((c1 * c2) mod pub_n_sq pub))))"

text \<open>\<open>decrypt(priv, c)\<close>; \<open>//\<close> is floor division, as \<open>div\<close> on \<open>int\<close> is.\<close>

definition decrypt :: "PrivateKey \<Rightarrow> int \<Rightarrow> error + int" where
  "decrypt priv c =
     (case py_pow c (priv_lam priv) (priv_n_sq priv) of
        Inl e \<Rightarrow> Inl e
      | Inr x \<Rightarrow>
          if priv_n priv = 0 then Inl ZeroDivisionError
          else let l_val = (x - 1) div priv_n priv in
               Inr ((l_val * priv_mu priv) mod priv_n priv))"

text \<open>\<open>add\<close> and \<open>add_plain\<close>; \<open>%\<close> raises on a zero modulus.\<close>

definition add :: "PublicKey \<Rightarrow> int \<Rightarrow> int \<Rightarrow> error + int" where
  "add pub c1 c2 =
     (if pub_n_sq pub = 0 then Inl ZeroDivisionError else Inr ((c1 * c2) mod pub_n_sq pub))"

definition add_plain :: "PublicKey \<Rightarrow> int \<Rightarrow> int \<Rightarrow> error + int" where
  "add_plain pub c m =
     (case py_pow (pub_g pub) m (pub_n_sq pub) of
        Inl e \<Rightarrow> Inl e
      | Inr gm \<Rightarrow> Inr ((c * gm) mod pub_n_sq pub))"

text \<open>
  Primality, for the hypotheses of the correctness theorems: no divisor strictly between
  \<open>1\<close> and \<open>p\<close>.
\<close>

definition is_prime :: "int \<Rightarrow> bool" where
  "is_prime p = (1 < p \<and> (\<forall>d \<in> {2..<p}. \<not> d dvd p))"

text \<open>The same notion on natural numbers, in the form the proofs use.\<close>

definition nat_prime :: "nat \<Rightarrow> bool" where
  "nat_prime p = (1 < p \<and> (\<forall>d. d dvd p \<longrightarrow> d = 1 \<or> d = p))"

text \<open>Randomness that \<open>encrypt\<close> accepts for the modulus \<open>n\<close>.\<close>

definition admissible :: "int \<Rightarrow> int \<Rightarrow> bool" where
  "admissible n r = (1 \<le> r \<and> r < n \<and> gcd r n = 1)"

section \<open>Audit log: rows and the hash-chain check (app/db.py)\<close>

text \<open>
  A row of the table \<open>audit.logs\<close>: \<open>id\<close> is the primary key, \<open>payload_hash\<close> is
  declared \<open>nullable=False\<close>, \<open>prev_hash\<close> is declared \<open>nullable=True\<close>, so the first
  is a string and the second an optional string. Timestamps are numbers.
\<close>

record audit_row =
  entry_id :: int
  event_type :: string
  payload_hash :: string
  prev_hash :: "string option"
  created_at :: int

text \<open>The dictionary \<open>{"ok": .., "length": .., "broken_id": ..}\<close> that the check returns.\<close>

record verify_result =
  ok :: bool
  length_r :: nat
  broken_id :: "int option"

text \<open>
  The \<open>for row in rows\<close> loop of \<open>verify_hash_chain\<close>. The first argument is the
  variable \<open>prev_payload\<close> (\<open>None\<close> before the first row), the last one is
  \<open>len(rows)\<close> of the whole result set. An early \<open>return\<close> ends the recursion.
\<close>

fun verify_loop :: "string option \<Rightarrow> audit_row list \<Rightarrow> nat \<Rightarrow> verify_result" where
  "verify_loop prev_payload [] n = \<lparr>ok = True, length_r = n, broken_id = None\<rparr>"
| "verify_loop prev_payload (row # rows) n =
     (case prev_payload of
        None \<Rightarrow> verify_loop (Some (payload_hash row)) rows n
      | Some pp \<Rightarrow>
          if prev_hash row \<noteq> Some pp
          then \<lparr>ok = False, length_r = n, broken_id = Some (entry_id row)\<rparr>
          else verify_loop (Some (payload_hash row)) rows n)"

text \<open>The query of \<open>verify_hash_chain\<close>: every row, \<open>ORDER BY id ASC\<close>.\<close>

definition select_logs_asc :: "audit_row list \<Rightarrow> audit_row list" where
  "select_logs_asc logs = sort_key entry_id logs"

definition verify_hash_chain :: "audit_row list \<Rightarrow> verify_result" where
  "verify_hash_chain logs =
     (let rows = select_logs_asc logs in verify_loop None rows (length rows))"

text \<open>
  The invariant of the data model on a list of rows: every row after the first carries
  the \<open>payload_hash\<close> of the row before it as its \<open>prev_hash\<close>.
\<close>

fun linked :: "audit_row list \<Rightarrow> bool" where
  "linked [] = True"
| "linked [r] = True"
| "linked (r # s # rs) = (prev_hash s = Some (payload_hash r) \<and> linked (s # rs))"

text \<open>Rows as the table holds them: primary keys strictly ascending.\<close>

definition ids_ascending :: "audit_row list \<Rightarrow> bool" where
  "ids_ascending logs = sorted_wrt (<) (map entry_id logs)"

text \<open>
  The state of the loop agrees with the row it is about to read: either no row has been
  read yet, or the next row's \<open>prev_hash\<close> is the remembered \<open>payload_hash\<close>.
\<close>

fun accepts :: "string option \<Rightarrow> audit_row list \<Rightarrow> bool" where
  "accepts pv [] = True"
| "accepts pv (r # rs) = (pv = None \<or> prev_hash r = pv)"

section \<open>The database and the vote pipeline (app/db.py, app/main.py)\<close>

text \<open>
  The tables that \<open>record_vote\<close> and \<open>aggregate_votes\<close> touch, each as the list of its
  rows in insertion order. The values that the server generates for a row, the
  primary key from its sequence and \<open>CURRENT_TIMESTAMP\<close>, are inputs of the model, as
  the random draws are. The server is taken to be reachable and its sequences not
  exhausted.
\<close>

record question_row =
  question_pk :: int
  question_id :: string
  label :: string
  created_by :: string
  is_active :: bool
  question_created_at :: int

record participant_row =
  participant_pk :: int
  participant_hash :: string
  agent_hash :: string
  participant_created_at :: int

record vote_row =
  vote_pk :: int
  vote_question_id :: string
  vote_participant_hash :: string
  ciphertext :: string
  key_id :: string
  vote_created_at :: int

record database =
  db_questions :: "question_row list"
  db_participants :: "participant_row list"
  db_votes :: "vote_row list"
  db_logs :: "audit_row list"


text \<open>
  What the server does with a string it is given. A text parameter of any statement
  is refused when it contains the character U+0000. A value assigned to a column
  \<open>String(k)\<close> (\<open>character varying(k)\<close>) that is longer than \<open>k\<close> characters is
  refused, unless the characters beyond \<open>k\<close> are all spaces, in which case it is cut to
  \<open>k\<close> characters. Either refusal reaches the caller as \<open>DBAPIError\<close>.
\<close>

definition text_param :: "string \<Rightarrow> error + string" where
  "text_param s =
     (if CHR 0x00 \<in> set s then Inl (DBAPIError ''invalid byte sequence for encoding UTF8: 0x00'')
      else Inr s)"

definition varchar :: "nat \<Rightarrow> string \<Rightarrow> error + string" where
  "varchar k s =
     (if length s \<le> k then Inr s
      else if \<forall>c \<in> set (drop k s). c = CHR '' '' then Inr (take k s)
      else Inl (DBAPIError ''value too long for type character varying''))"

text \<open>A string that a column of width \<open>k\<close> takes, as a predicate.\<close>

definition fits :: "nat \<Rightarrow> string \<Rightarrow> bool" where
  "fits k s = (CHR 0x00 \<notin> set s \<and> (length s \<le> k \<or> (\<forall>c \<in> set (drop k s). c = CHR '' '')))"







text \<open>
  \<open>async with engine.begin() as conn\<close>: the block works on the tables; when it ends
  normally its changes are committed, when it is left by an exception they are rolled
  back and the exception goes on to the caller.
\<close>

definition transaction ::
  "database \<Rightarrow> (database \<Rightarrow> error + ('a \<times> database)) \<Rightarrow> (error + 'a) \<times> database" where
  "transaction db block =
     (case block db of Inl e \<Rightarrow> (Inl e, db) | Inr (res, db') \<Rightarrow> (Inr res, db'))"














section \<open>Properties of the hash-chain check\<close>

lemma select_logs_asc_id:
  assumes "ids_ascending logs"
  shows "select_logs_asc logs = logs"
proof -
  from assms have "sorted (map entry_id logs)"
    unfolding ids_ascending_def by (simp add: strict_sorted_iff)
  then show ?thesis
    unfolding select_logs_asc_def by (rule sort_key_id_if_sorted)
qed

lemma verify_hash_chain_asc:
  "ids_ascending logs \<Longrightarrow> verify_hash_chain logs = verify_loop None logs (length logs)"
  by (simp add: verify_hash_chain_def select_logs_asc_id)

lemma map_id_upd_prev [simp]:
  "map entry_id (es[i := (es ! i)\<lparr>prev_hash := h\<rparr>]) = map entry_id es"
  by (cases "i < length es") (simp_all add: map_update list_update_same_conv list_update_beyond)

lemma map_id_upd_payload [simp]:
  "map entry_id (es[i := (es ! i)\<lparr>payload_hash := h\<rparr>]) = map entry_id es"
  by (cases "i < length es") (simp_all add: map_update list_update_same_conv list_update_beyond)

lemma verify_loop_linked:
  "linked (r # rs) \<Longrightarrow>
   verify_loop (Some (payload_hash r)) rs n = \<lparr>ok = True, length_r = n, broken_id = None\<rparr>"
  by (induction rs arbitrary: r) auto

lemma verify_loop_prev_mut:
  "linked (r # rs) \<Longrightarrow> i < length rs \<Longrightarrow> h \<noteq> prev_hash (rs ! i) \<Longrightarrow>
   verify_loop (Some (payload_hash r)) (rs[i := (rs ! i)\<lparr>prev_hash := h\<rparr>]) n
     = \<lparr>ok = False, length_r = n, broken_id = Some (entry_id (rs ! i))\<rparr>"
proof (induction rs arbitrary: r i)
  case Nil
  then show ?case by simp
next
  case (Cons s rs)
  show ?case
  proof (cases i)
    case 0
    with Cons.prems show ?thesis by auto
  next
    case (Suc j)
    with Cons.prems have "linked (s # rs)" "j < length rs" "h \<noteq> prev_hash (rs ! j)"
      "prev_hash s = Some (payload_hash r)"
      by auto
    with Cons.IH[of s j] Suc show ?thesis by simp
  qed
qed

lemma verify_loop_payload_mut:
  "linked es \<Longrightarrow> accepts pv es \<Longrightarrow> Suc i < length es \<Longrightarrow> h \<noteq> payload_hash (es ! i) \<Longrightarrow>
   verify_loop pv (es[i := (es ! i)\<lparr>payload_hash := h\<rparr>]) n
     = \<lparr>ok = False, length_r = n, broken_id = Some (entry_id (es ! Suc i))\<rparr>"
proof (induction es arbitrary: pv i)
  case Nil
  then show ?case by simp
next
  case (Cons r rs)
  then obtain s rs' where rs: "rs = s # rs'" by (cases rs) auto
  show ?case
  proof (cases i)
    case 0
    with Cons.prems rs show ?thesis by (auto split: option.splits)
  next
    case (Suc j)
    from Cons.prems rs Suc have "linked rs" "accepts (Some (payload_hash r)) rs"
      "Suc j < length rs" "h \<noteq> payload_hash (rs ! j)"
      by auto
    from Cons.IH[OF this] Cons.prems(2) Suc show ?thesis
      by (auto split: option.splits)
  qed
qed

lemma verify_loop_first_prev:
  "verify_loop None (es[0 := (es ! 0)\<lparr>prev_hash := h\<rparr>]) n = verify_loop None es n"
  by (cases es) auto

lemma verify_loop_last_payload:
  "verify_loop pv (es[length es - 1 := (es ! (length es - 1))\<lparr>payload_hash := h\<rparr>]) n = verify_loop pv es n"
proof (induction es arbitrary: pv)
  case Nil
  then show ?case by simp
next
  case (Cons r rs)
  show ?case
  proof (cases rs)
    case Nil
    then show ?thesis by (auto split: option.splits)
  next
    case (Cons s rs')
    with Cons.IH show ?thesis by (auto split: option.splits)
  qed
qed

lemma ids_ascending_upd_prev:
  "ids_ascending (es[i := (es ! i)\<lparr>prev_hash := h\<rparr>]) = ids_ascending es"
  by (simp add: ids_ascending_def)

lemma ids_ascending_upd_payload:
  "ids_ascending (es[i := (es ! i)\<lparr>payload_hash := h\<rparr>]) = ids_ascending es"
  by (simp add: ids_ascending_def)

lemma verify_loop_None_linked:
  "linked es \<Longrightarrow> verify_loop None es n = \<lparr>ok = True, length_r = n, broken_id = None\<rparr>"
  by (cases es) (simp_all add: verify_loop_linked)

text \<open>
  Claim C4, as amended. A chain whose rows are linked verifies as \<open>ok\<close> with its length.
  Replacing the \<open>prev_hash\<close> of a row other than the first by a different value makes
  the check fail at that row; replacing the \<open>payload_hash\<close> of a row other than the
  last by a different value makes it fail at the row that follows. In both cases the
  reported id is that of the first row whose \<open>prev_hash\<close> differs from the
  \<open>payload_hash\<close> before it, and the reported length is still the number of rows.
\<close>

theorem verify_hash_chain_detects_mutation:
  assumes "ids_ascending es" and "linked es"
  shows "verify_hash_chain es = \<lparr>ok = True, length_r = length es, broken_id = None\<rparr>
    \<and> (\<forall>i h. 0 < i \<and> i < length es \<and> h \<noteq> prev_hash (es ! i) \<longrightarrow>
          verify_hash_chain (es[i := (es ! i)\<lparr>prev_hash := h\<rparr>])
            = \<lparr>ok = False, length_r = length es, broken_id = Some (entry_id (es ! i))\<rparr>)
    \<and> (\<forall>i h. Suc i < length es \<and> h \<noteq> payload_hash (es ! i) \<longrightarrow>
          verify_hash_chain (es[i := (es ! i)\<lparr>payload_hash := h\<rparr>])
            = \<lparr>ok = False, length_r = length es, broken_id = Some (entry_id (es ! Suc i))\<rparr>)"
proof (intro conjI allI impI)
  show "verify_hash_chain es = \<lparr>ok = True, length_r = length es, broken_id = None\<rparr>"
    using assms by (simp add: verify_hash_chain_asc verify_loop_None_linked)
next
  fix i h
  assume a: "0 < i \<and> i < length es \<and> h \<noteq> prev_hash (es ! i)"
  then obtain r rs j where es: "es = r # rs" and i: "i = Suc j"
    by (cases es; cases i) auto
  from a es i assms(2) have
    "verify_loop (Some (payload_hash r)) (rs[j := (rs ! j)\<lparr>prev_hash := h\<rparr>]) (length es)
       = \<lparr>ok = False, length_r = length es, broken_id = Some (entry_id (rs ! j))\<rparr>"
    by (intro verify_loop_prev_mut) auto
  then have "verify_loop None (es[i := (es ! i)\<lparr>prev_hash := h\<rparr>]) (length es)
       = \<lparr>ok = False, length_r = length es, broken_id = Some (entry_id (es ! i))\<rparr>"
    by (simp add: es i)
  then show "verify_hash_chain (es[i := (es ! i)\<lparr>prev_hash := h\<rparr>])
       = \<lparr>ok = False, length_r = length es, broken_id = Some (entry_id (es ! i))\<rparr>"
    using assms(1) by (simp add: verify_hash_chain_asc ids_ascending_upd_prev)
next
  fix i h
  assume a: "Suc i < length es \<and> h \<noteq> payload_hash (es ! i)"
  have "accepts None es" by (cases es) simp_all
  with assms(2) a have
    "verify_loop None (es[i := (es ! i)\<lparr>payload_hash := h\<rparr>]) (length es)
       = \<lparr>ok = False, length_r = length es, broken_id = Some (entry_id (es ! Suc i))\<rparr>"
    by (intro verify_loop_payload_mut) auto
  then show "verify_hash_chain (es[i := (es ! i)\<lparr>payload_hash := h\<rparr>])
       = \<lparr>ok = False, length_r = length es, broken_id = Some (entry_id (es ! Suc i))\<rparr>"
    using assms(1) by (simp add: verify_hash_chain_asc ids_ascending_upd_payload)
qed

theorem verify_hash_chain_detects_mutation_witness:
  "ids_ascending
     [\<lparr>entry_id = 1, event_type = ''vote_received'', payload_hash = ''a'', prev_hash = None, created_at = 0\<rparr>,
      \<lparr>entry_id = 2, event_type = ''vote_received'', payload_hash = ''b'', prev_hash = Some ''a'', created_at = 1\<rparr>,
      \<lparr>entry_id = 3, event_type = ''vote_received'', payload_hash = ''c'', prev_hash = Some ''b'', created_at = 2\<rparr>]
   \<and> linked
     [\<lparr>entry_id = 1, event_type = ''vote_received'', payload_hash = ''a'', prev_hash = None, created_at = 0\<rparr>,
      \<lparr>entry_id = 2, event_type = ''vote_received'', payload_hash = ''b'', prev_hash = Some ''a'', created_at = 1\<rparr>,
      \<lparr>entry_id = 3, event_type = ''vote_received'', payload_hash = ''c'', prev_hash = Some ''b'', created_at = 2\<rparr>]
   \<and> verify_hash_chain
     [\<lparr>entry_id = 1, event_type = ''vote_received'', payload_hash = ''a'', prev_hash = None, created_at = 0\<rparr>,
      \<lparr>entry_id = 2, event_type = ''vote_received'', payload_hash = ''b'', prev_hash = Some ''a'', created_at = 1\<rparr>,
      \<lparr>entry_id = 3, event_type = ''vote_received'', payload_hash = ''c'', prev_hash = Some ''b'', created_at = 2\<rparr>]
     = \<lparr>ok = True, length_r = 3, broken_id = None\<rparr>
   \<and> verify_hash_chain
     [\<lparr>entry_id = 1, event_type = ''vote_received'', payload_hash = ''a'', prev_hash = None, created_at = 0\<rparr>,
      \<lparr>entry_id = 2, event_type = ''vote_received'', payload_hash = ''b'', prev_hash = Some ''bogus'', created_at = 1\<rparr>,
      \<lparr>entry_id = 3, event_type = ''vote_received'', payload_hash = ''c'', prev_hash = Some ''b'', created_at = 2\<rparr>]
     = \<lparr>ok = False, length_r = 3, broken_id = Some 2\<rparr>
   \<and> verify_hash_chain
     [\<lparr>entry_id = 1, event_type = ''vote_received'', payload_hash = ''a'', prev_hash = None, created_at = 0\<rparr>,
      \<lparr>entry_id = 2, event_type = ''vote_received'', payload_hash = ''bogus'', prev_hash = Some ''a'', created_at = 1\<rparr>,
      \<lparr>entry_id = 3, event_type = ''vote_received'', payload_hash = ''c'', prev_hash = Some ''b'', created_at = 2\<rparr>]
     = \<lparr>ok = False, length_r = 3, broken_id = Some 3\<rparr>"
proof -
  let ?r1 = "\<lparr>entry_id = 1, event_type = ''vote_received'', payload_hash = ''a'', prev_hash = None, created_at = 0\<rparr>"
  let ?r2 = "\<lparr>entry_id = 2, event_type = ''vote_received'', payload_hash = ''b'', prev_hash = Some ''a'', created_at = 1\<rparr>"
  let ?r3 = "\<lparr>entry_id = 3, event_type = ''vote_received'', payload_hash = ''c'', prev_hash = Some ''b'', created_at = 2\<rparr>"
  let ?es = "[?r1, ?r2, ?r3]"
  have h1: "ids_ascending ?es" by (simp add: ids_ascending_def)
  have h2: "linked ?es" by simp
  note t = verify_hash_chain_detects_mutation[OF h1 h2]
  from t have a: "verify_hash_chain ?es = \<lparr>ok = True, length_r = 3, broken_id = None\<rparr>"
    by simp
  from t have "0 < (1::nat) \<and> 1 < length ?es \<and> Some ''bogus'' \<noteq> prev_hash (?es ! 1) \<longrightarrow>
      verify_hash_chain (?es[1 := (?es ! 1)\<lparr>prev_hash := Some ''bogus''\<rparr>])
        = \<lparr>ok = False, length_r = length ?es, broken_id = Some (entry_id (?es ! 1))\<rparr>"
    by blast
  then have b: "verify_hash_chain (?es[1 := (?es ! 1)\<lparr>prev_hash := Some ''bogus''\<rparr>])
        = \<lparr>ok = False, length_r = 3, broken_id = Some 2\<rparr>"
    by simp
  from t have "Suc 1 < length ?es \<and> ''bogus'' \<noteq> payload_hash (?es ! 1) \<longrightarrow>
      verify_hash_chain (?es[1 := (?es ! 1)\<lparr>payload_hash := ''bogus''\<rparr>])
        = \<lparr>ok = False, length_r = length ?es, broken_id = Some (entry_id (?es ! Suc 1))\<rparr>"
    by blast
  then have c: "verify_hash_chain (?es[1 := (?es ! 1)\<lparr>payload_hash := ''bogus''\<rparr>])
        = \<lparr>ok = False, length_r = 3, broken_id = Some 3\<rparr>"
    by simp
  from h1 h2 a b c show ?thesis by simp
qed

text \<open>
  The claim as first stated fails: in a linked chain of two rows, replacing the
  \<open>payload_hash\<close> of the last row by a different value leaves the result \<open>ok = True\<close>.
\<close>

theorem verify_hash_chain_mutation_counterexample:
  "ids_ascending
     [\<lparr>entry_id = 1, event_type = ''vote_received'', payload_hash = ''a'', prev_hash = None, created_at = 0\<rparr>,
      \<lparr>entry_id = 2, event_type = ''vote_received'', payload_hash = ''b'', prev_hash = Some ''a'', created_at = 1\<rparr>]
   \<and> linked
     [\<lparr>entry_id = 1, event_type = ''vote_received'', payload_hash = ''a'', prev_hash = None, created_at = 0\<rparr>,
      \<lparr>entry_id = 2, event_type = ''vote_received'', payload_hash = ''b'', prev_hash = Some ''a'', created_at = 1\<rparr>]
   \<and> ''bogus'' \<noteq> ''b''
   \<and> verify_hash_chain
     [\<lparr>entry_id = 1, event_type = ''vote_received'', payload_hash = ''a'', prev_hash = None, created_at = 0\<rparr>,
      \<lparr>entry_id = 2, event_type = ''vote_received'', payload_hash = ''bogus'', prev_hash = Some ''a'', created_at = 1\<rparr>]
     = \<lparr>ok = True, length_r = 2, broken_id = None\<rparr>"
  by (simp add: ids_ascending_def verify_hash_chain_def select_logs_asc_def)

text \<open>
  Claim C10. On rows in ascending id order the result of the check depends neither on
  the \<open>prev_hash\<close> of the first row nor on the \<open>payload_hash\<close> of the last row, and a
  chain of at most one row verifies as \<open>ok\<close>.
\<close>

theorem verify_hash_chain_ignores_ends:
  assumes "ids_ascending es"
  shows "verify_hash_chain (es[0 := (es ! 0)\<lparr>prev_hash := h\<rparr>]) = verify_hash_chain es
    \<and> verify_hash_chain (es[length es - 1 := (es ! (length es - 1))\<lparr>payload_hash := h'\<rparr>])
        = verify_hash_chain es
    \<and> (length es \<le> 1 \<longrightarrow>
          verify_hash_chain es = \<lparr>ok = True, length_r = length es, broken_id = None\<rparr>)"
proof (intro conjI impI)
  show "verify_hash_chain (es[0 := (es ! 0)\<lparr>prev_hash := h\<rparr>]) = verify_hash_chain es"
    using assms by (simp add: verify_hash_chain_asc ids_ascending_upd_prev verify_loop_first_prev)
  have a: "ids_ascending (es[length es - 1 := (es ! (length es - 1))\<lparr>payload_hash := h'\<rparr>])"
    using assms by (simp only: ids_ascending_upd_payload)
  show "verify_hash_chain (es[length es - 1 := (es ! (length es - 1))\<lparr>payload_hash := h'\<rparr>])
        = verify_hash_chain es"
    unfolding verify_hash_chain_asc[OF a] verify_hash_chain_asc[OF assms]
    by (simp only: length_list_update verify_loop_last_payload)
  assume "length es \<le> 1"
  then have "linked es" by (cases es) (auto simp: Suc_le_eq)
  then show "verify_hash_chain es = \<lparr>ok = True, length_r = length es, broken_id = None\<rparr>"
    using assms by (simp add: verify_hash_chain_asc verify_loop_None_linked)
qed

theorem verify_hash_chain_ignores_ends_witness:
  "ids_ascending
     [\<lparr>entry_id = 1, event_type = ''vote_received'', payload_hash = ''a'', prev_hash = None, created_at = 0\<rparr>,
      \<lparr>entry_id = 2, event_type = ''photo_uploaded'', payload_hash = ''b'', prev_hash = Some ''z'', created_at = 1\<rparr>]
   \<and> verify_hash_chain
     [\<lparr>entry_id = 1, event_type = ''vote_received'', payload_hash = ''a'', prev_hash = Some ''x'', created_at = 0\<rparr>,
      \<lparr>entry_id = 2, event_type = ''photo_uploaded'', payload_hash = ''b'', prev_hash = Some ''z'', created_at = 1\<rparr>]
     = verify_hash_chain
     [\<lparr>entry_id = 1, event_type = ''vote_received'', payload_hash = ''a'', prev_hash = None, created_at = 0\<rparr>,
      \<lparr>entry_id = 2, event_type = ''photo_uploaded'', payload_hash = ''b'', prev_hash = Some ''z'', created_at = 1\<rparr>]
   \<and> verify_hash_chain
     [\<lparr>entry_id = 1, event_type = ''vote_received'', payload_hash = ''a'', prev_hash = None, created_at = 0\<rparr>,
      \<lparr>entry_id = 2, event_type = ''photo_uploaded'', payload_hash = ''y'', prev_hash = Some ''z'', created_at = 1\<rparr>]
     = verify_hash_chain
     [\<lparr>entry_id = 1, event_type = ''vote_received'', payload_hash = ''a'', prev_hash = None, created_at = 0\<rparr>,
      \<lparr>entry_id = 2, event_type = ''photo_uploaded'', payload_hash = ''b'', prev_hash = Some ''z'', created_at = 1\<rparr>]"
proof -
  let ?r1 = "\<lparr>entry_id = 1, event_type = ''vote_received'', payload_hash = ''a'', prev_hash = None, created_at = 0\<rparr>"
  let ?r2 = "\<lparr>entry_id = 2, event_type = ''photo_uploaded'', payload_hash = ''b'', prev_hash = Some ''z'', created_at = 1\<rparr>"
  have h: "ids_ascending [?r1, ?r2]" by (simp add: ids_ascending_def)
  from verify_hash_chain_ignores_ends[OF h, of "Some ''x''" "''y''"] h
  show ?thesis by simp
qed

section \<open>Number theory: Fermat's little theorem and two distinct primes\<close>

lemma nat_prime_coprime:
  assumes "nat_prime p" "\<not> p dvd a"
  shows "coprime p a"
proof -
  have "gcd p a dvd p" by simp
  with assms(1) have "gcd p a = 1 \<or> gcd p a = p" by (simp add: nat_prime_def)
  moreover have "gcd p a \<noteq> p"
  proof
    assume "gcd p a = p"
    then have "p dvd a" by (metis gcd_dvd2)
    with assms(2) show False by simp
  qed
  ultimately show ?thesis by (simp add: coprime_iff_gcd_eq_1)
qed

lemma nat_prime_dvd_mult:
  assumes "nat_prime p" "p dvd a * b"
  shows "p dvd a \<or> p dvd b"
proof (cases "p dvd a")
  case True
  then show ?thesis by simp
next
  case False
  with assms(1) have "coprime p a" by (rule nat_prime_coprime)
  with assms(2) have "p dvd b" by (simp add: coprime_dvd_mult_right_iff)
  then show ?thesis by simp
qed

lemma nat_prime_dvd_choose:
  assumes "nat_prime p" "0 < k" "k < p"
  shows "p dvd (p choose k)"
proof -
  have "k * (p choose k) = p * ((p - 1) choose (k - 1))"
    using assms(2) by (rule times_binomial_minus1_eq)
  then have "p dvd k * (p choose k)" by simp
  with assms(1) have "p dvd k \<or> p dvd (p choose k)" by (rule nat_prime_dvd_mult)
  moreover have "\<not> p dvd k" using assms(2,3) by (auto dest: dvd_imp_le)
  ultimately show ?thesis by simp
qed

lemma sum_split_ends:
  fixes f :: "nat \<Rightarrow> nat"
  assumes "0 < p"
  shows "(\<Sum>k\<le>p. f k) = f 0 + (\<Sum>k = 1..<p. f k) + f p"
proof -
  obtain m where m: "p = Suc m" using assms by (cases p) auto
  have "(\<Sum>k\<le>p. f k) = (\<Sum>k = 0..m. f k) + f p"
    by (simp add: m atMost_atLeast0)
  also have "(\<Sum>k = 0..m. f k) = f 0 + (\<Sum>k = 1..m. f k)"
    by (simp add: sum.atLeast_Suc_atMost)
  also have "{1..m} = {1..<p}" by (auto simp: m)
  finally show ?thesis .
qed

lemma freshman_nat:
  assumes "nat_prime p"
  shows "(a + 1) ^ p mod p = (a ^ p + 1) mod p"
proof -
  from assms have p: "0 < p" by (simp add: nat_prime_def)
  let ?f = "\<lambda>k. (p choose k) * a ^ k"
  have "(a + 1) ^ p = (\<Sum>k\<le>p. ?f k)"
    using binomial_ring[of a 1 p] by simp
  also have "\<dots> = ?f 0 + (\<Sum>k = 1..<p. ?f k) + ?f p"
    using p by (rule sum_split_ends)
  finally have eq: "(a + 1) ^ p = (a ^ p + 1) + (\<Sum>k = 1..<p. ?f k)" by simp
  have "p dvd (\<Sum>k = 1..<p. ?f k)"
  proof (rule dvd_sum)
    fix k assume "k \<in> {1..<p}"
    then have "p dvd (p choose k)" using assms by (intro nat_prime_dvd_choose) auto
    then show "p dvd ?f k" by simp
  qed
  then have "((a ^ p + 1) + (\<Sum>k = 1..<p. ?f k)) mod p = (a ^ p + 1) mod p"
    by (metis mod_add_right_eq dvd_eq_mod_eq_0 add.right_neutral)
  with eq show ?thesis by simp
qed

lemma fermat_nat:
  assumes "nat_prime p"
  shows "a ^ p mod p = a mod p"
proof (induction a)
  case 0
  from assms have "0 < p" by (simp add: nat_prime_def)
  then show ?case by (simp add: zero_power)
next
  case (Suc a)
  have "(Suc a) ^ p mod p = (a ^ p + 1) mod p"
    using freshman_nat[OF assms, of a] by simp
  also have "\<dots> = (a ^ p mod p + 1) mod p" by (simp only: mod_add_left_eq)
  also have "\<dots> = (a mod p + 1) mod p" by (simp only: Suc.IH)
  also have "\<dots> = (a + 1) mod p" by (simp only: mod_add_left_eq)
  also have "\<dots> = Suc a mod p" by simp
  finally show ?case .
qed

lemma fermat_little_nat:
  assumes "nat_prime p" "\<not> p dvd a"
  shows "a ^ (p - 1) mod p = 1"
proof -
  from assms(1) have p: "1 < p" by (simp add: nat_prime_def)
  have a: "0 < a" using assms(2) by (cases a) auto
  then have ge: "1 \<le> a ^ (p - 1)" by simp
  have "a * a ^ (p - 1) = a ^ p" using p by (cases p) auto
  then have "(a * a ^ (p - 1)) mod p = (a * 1) mod p"
    using fermat_nat[OF assms(1), of a] by simp
  then have "p dvd a * a ^ (p - 1) - a * 1"
    using ge a by (metis mod_eq_dvd_iff_nat mult_le_mono2)
  then have "p dvd a * (a ^ (p - 1) - 1)" by (simp add: diff_mult_distrib2)
  with assms(1) have "p dvd a \<or> p dvd (a ^ (p - 1) - 1)" by (rule nat_prime_dvd_mult)
  with assms(2) have "p dvd (a ^ (p - 1) - 1)" by simp
  then have "a ^ (p - 1) mod p = 1 mod p"
    using ge by (metis mod_eq_dvd_iff_nat)
  with p show ?thesis by simp
qed

lemma is_prime_nat_prime:
  assumes "is_prime p"
  shows "nat_prime (nat p)"
proof -
  from assms have p: "1 < p" and nd: "\<And>d. 2 \<le> d \<Longrightarrow> d < p \<Longrightarrow> \<not> d dvd p"
    by (auto simp: is_prime_def)
  have "d = 1 \<or> d = nat p" if d: "d dvd nat p" for d
  proof (rule ccontr)
    assume n: "\<not> (d = 1 \<or> d = nat p)"
    from d p have "d \<le> nat p" by (intro dvd_imp_le) auto
    moreover have "d \<noteq> 0"
    proof
      assume "d = 0"
      with d have "nat p = 0" by simp
      with p show False by simp
    qed
    ultimately have "2 \<le> int d" "int d < p" using n by auto
    moreover from d p have "int d dvd p"
      by (metis int_dvd_int_iff int_nat_eq less_le_not_le linear zero_less_one_class.zero_le_one order_trans)
    ultimately show False using nd by blast
  qed
  with p show ?thesis by (simp add: nat_prime_def)
qed

lemma fermat_int:
  fixes r :: int
  assumes "is_prime p" "\<not> p dvd r"
  shows "r ^ (nat p - 1) mod p = 1"
proof -
  from assms(1) have p: "1 < p" by (simp add: is_prime_def)
  define a where "a = nat (r mod p)"
  have ra: "r mod p = int a" using p by (simp add: a_def)
  have nd: "\<not> p dvd r mod p" using assms(2) by (simp add: dvd_mod_iff)
  have "\<not> nat p dvd a"
  proof
    assume "nat p dvd a"
    then have "int (nat p) dvd int a" by (simp only: int_dvd_int_iff)
    with p ra nd show False by simp
  qed
  with is_prime_nat_prime[OF assms(1)] have "a ^ (nat p - 1) mod nat p = 1"
    by (rule fermat_little_nat)
  then have "int (a ^ (nat p - 1) mod nat p) = 1" by simp
  then have "(int a) ^ (nat p - 1) mod p = 1" using p by (simp add: zmod_int)
  then have "(r mod p) ^ (nat p - 1) mod p = 1" by (simp only: ra)
  then show ?thesis by (simp only: power_mod)
qed

lemma power_cycle_int:
  fixes a m :: int
  assumes "a ^ k mod m = 1" "1 < m"
  shows "a ^ (k * j) mod m = 1"
proof -
  have "a ^ (k * j) mod m = (a ^ k mod m) ^ j mod m"
    by (simp only: power_mult power_mod)
  also have "\<dots> = 1" using assms by simp
  finally show ?thesis .
qed

lemma fermat_multiple:
  fixes r :: int
  assumes "is_prime p" "\<not> p dvd r" "(p - 1) dvd e" "0 \<le> e"
  shows "r ^ nat e mod p = 1"
proof -
  from assms(1) have p: "1 < p" by (simp add: is_prime_def)
  from assms(3) obtain j where j: "e = (p - 1) * j" by (auto simp: dvd_def)
  with assms(4) p have "0 \<le> j" by (simp add: zero_le_mult_iff)
  then have "nat e = (nat p - 1) * nat j"
    using j p by (simp add: nat_mult_distrib nat_diff_distrib)
  then show ?thesis
    using power_cycle_int[OF fermat_int[OF assms(1,2)] p, of "nat j"] by simp
qed

lemma is_prime_distinct_not_dvd:
  assumes "is_prime p" "is_prime q" "p \<noteq> q"
  shows "\<not> p dvd q"
proof
  assume d: "p dvd q"
  from assms have p: "1 < p" and q: "1 < q" by (auto simp: is_prime_def)
  from d q have "p \<le> q" by (intro zdvd_imp_le) auto
  with assms(3) p have "p \<in> {2..<q}" by auto
  with assms(2) d show False by (auto simp: is_prime_def)
qed

lemma is_prime_coprime:
  assumes "is_prime p" "\<not> p dvd a"
  shows "coprime p a"
proof -
  from assms(1) have p: "1 < p" by (simp add: is_prime_def)
  have "\<not> nat p dvd nat \<bar>a\<bar>"
    using assms(2) p by (metis dvd_abs_iff int_dvd_int_iff int_nat_eq abs_ge_zero less_le_not_le linear zero_less_one_class.zero_le_one order_trans)
  with is_prime_nat_prime[OF assms(1)] have "coprime (nat p) (nat \<bar>a\<bar>)"
    by (rule nat_prime_coprime)
  then have "coprime (int (nat p)) (int (nat \<bar>a\<bar>))" by (simp only: coprime_int_iff)
  with p show ?thesis by simp
qed

lemma carmichael_two_primes:
  fixes r :: int
  assumes "is_prime p" "is_prime q" "p \<noteq> q" "coprime r (p * q)"
    and "(p - 1) dvd e" "(q - 1) dvd e" "0 \<le> e"
  shows "r ^ nat e mod (p * q) = 1"
proof -
  from assms have p: "1 < p" and q: "1 < q" by (auto simp: is_prime_def)
  have np: "\<not> p dvd r"
  proof
    assume "p dvd r"
    then have "p dvd gcd r (p * q)" by simp
    with assms(4) p show False by (simp add: coprime_iff_gcd_eq_1)
  qed
  have nq: "\<not> q dvd r"
  proof
    assume "q dvd r"
    then have "q dvd gcd r (p * q)" by simp
    with assms(4) q show False by (simp add: coprime_iff_gcd_eq_1)
  qed
  have "r ^ nat e mod p = 1 mod p" using fermat_multiple[OF assms(1) np assms(5,7)] p by simp
  then have dp: "p dvd r ^ nat e - 1" by (simp only: mod_eq_dvd_iff)
  have "r ^ nat e mod q = 1 mod q" using fermat_multiple[OF assms(2) nq assms(6,7)] q by simp
  then have dq: "q dvd r ^ nat e - 1" by (simp only: mod_eq_dvd_iff)
  have "coprime p q"
    using is_prime_coprime[OF assms(1) is_prime_distinct_not_dvd[OF assms(1,2,3)]] .
  with dp dq have "p * q dvd r ^ nat e - 1" by (simp add: divides_mult)
  then have "r ^ nat e mod (p * q) = 1 mod (p * q)" by (simp only: mod_eq_dvd_iff)
  moreover have "1 < p * q" using p q by (metis less_1_mult)
  ultimately show ?thesis by simp
qed

section \<open>Arithmetic modulo the square of the modulus\<close>

lemma one_plus_power_mod_sq:
  fixes k n :: int
  shows "(1 + k * n) ^ j mod (n * n) = (1 + int j * k * n) mod (n * n)"
proof (induction j)
  case 0
  then show ?case by simp
next
  case (Suc j)
  have "(1 + k * n) ^ Suc j mod (n * n) = ((1 + k * n) * ((1 + k * n) ^ j mod (n * n))) mod (n * n)"
    by (simp only: power_Suc mod_mult_right_eq)
  also have "\<dots> = ((1 + k * n) * (1 + int j * k * n)) mod (n * n)"
    by (simp only: Suc.IH mod_mult_right_eq)
  also have "(1 + k * n) * (1 + int j * k * n) = (1 + int (Suc j) * k * n) + (int j * k * k) * (n * n)"
    by (simp add: algebra_simps)
  also have "\<dots> mod (n * n) = (1 + int (Suc j) * k * n) mod (n * n)"
    by (simp only: mod_mult_self1)
  finally show ?case .
qed

lemma g_power_mod_sq:
  fixes n :: int
  shows "(n + 1) ^ j mod (n * n) = (1 + int j * n) mod (n * n)"
  using one_plus_power_mod_sq[of 1 n j] by (simp add: add.commute)

lemma lift_one_mod_sq:
  fixes x n :: int
  assumes "x mod n = 1" "1 < n"
  shows "x ^ nat n mod (n * n) = 1"
proof -
  have "x = 1 + (x div n) * n" using assms(1) by (metis mult_div_mod_eq add.commute mult.commute)
  then have "x ^ nat n mod (n * n) = (1 + (x div n) * n) ^ nat n mod (n * n)" by simp
  also have "\<dots> = (1 + int (nat n) * (x div n) * n) mod (n * n)"
    by (rule one_plus_power_mod_sq)
  also have "1 + int (nat n) * (x div n) * n = 1 + (x div n) * (n * n)"
    using assms(2) by (simp add: algebra_simps)
  also have "\<dots> mod (n * n) = 1 mod (n * n)" by (simp only: mod_mult_self1)
  also have "\<dots> = 1" using assms(2) by (simp add: less_1_mult)
  finally show ?thesis .
qed

lemma one_plus_mod_sq:
  fixes a n :: int
  assumes "1 < n"
  shows "(1 + a * n) mod (n * n) = 1 + (a mod n) * n"
proof -
  have "1 + a * n = (1 + (a mod n) * n) + (a div n) * (n * n)"
  proof -
    have e: "a div n * n + a mod n = a" by simp
    have "a * n = (a div n * n + a mod n) * n" by (simp only: e)
    also have "\<dots> = (a mod n) * n + (a div n) * (n * n)"
      by (simp only: distrib_right mult.assoc add.commute)
    finally show ?thesis by simp
  qed
  then have "(1 + a * n) mod (n * n) = (1 + (a mod n) * n) mod (n * n)"
    by (simp only: mod_mult_self1)
  moreover have "0 \<le> 1 + (a mod n) * n" using assms by simp
  moreover have "1 + (a mod n) * n < n * n"
  proof -
    have "a mod n \<le> n - 1" using assms by (simp add: zle_diff1_eq)
    then have "(a mod n) * n \<le> (n - 1) * n" using assms by (intro mult_right_mono) auto
    then show ?thesis using assms by (simp add: algebra_simps)
  qed
  ultimately show ?thesis by simp
qed

lemma L_of_one_plus:
  fixes a n :: int
  assumes "1 < n"
  shows "((1 + a * n) mod (n * n) - 1) div n = a mod n"
  using assms by (simp add: one_plus_mod_sq)

section \<open>The modular inverse and the generated keys\<close>

lemma invmod_loop_bezout:
  "invmod_loop a n b c = (a', b') \<Longrightarrow> (b * a0) mod m = a mod m \<Longrightarrow> (c * a0) mod m = n mod m
     \<Longrightarrow> (b' * a0) mod m = a' mod m"
proof (induction a n b c rule: invmod_loop.induct)
  case (1 a n b c)
  show ?case
  proof (cases "n = 0")
    case True
    with "1.prems" show ?thesis by (simp add: invmod_loop.simps)
  next
    case False
    have step: "invmod_loop n (a mod n) c (b - (a div n) * c) = (a', b')"
      using "1.prems"(1) False by (simp add: invmod_loop.simps)
    have "((a div n) * (c * a0)) mod m = ((a div n) * n) mod m"
      using "1.prems"(3) by (metis mod_mult_right_eq)
    then have "(b * a0 - (a div n) * (c * a0)) mod m = (a - (a div n) * n) mod m"
      using "1.prems"(2) by (metis mod_diff_eq)
    moreover have "a - (a div n) * n = a mod n" by (simp add: minus_div_mult_eq_mod)
    moreover have "b * a0 - (a div n) * (c * a0) = (b - (a div n) * c) * a0"
      by (simp add: algebra_simps)
    ultimately have "((b - (a div n) * c) * a0) mod m = (a mod n) mod m" by simp
    from "1.IH"[OF False step "1.prems"(3) this] show ?thesis .
  qed
qed

lemma invmod_loop_gcd:
  "0 \<le> a \<Longrightarrow> 0 \<le> n \<Longrightarrow> fst (invmod_loop a n b c) = gcd a n"
proof (induction a n b c rule: invmod_loop.induct)
  case (1 a n b c)
  show ?case
  proof (cases "n = 0")
    case True
    with "1.prems" show ?thesis by (simp add: invmod_loop.simps)
  next
    case False
    with "1.prems" have n: "0 < n" by simp
    then have "0 \<le> a mod n" by simp
    from "1.IH"[OF False _ this] n
    have "fst (invmod_loop n (a mod n) c (b - (a div n) * c)) = gcd n (a mod n)" by simp
    also have "\<dots> = gcd a n" by (metis gcd_red_int)
    finally show ?thesis using False by (simp add: invmod_loop.simps)
  qed
qed

lemma long_invmod_gcd:
  assumes "0 < n"
  shows "fst (invmod_loop a n 1 0) = gcd a n"
proof -
  have "invmod_loop a n 1 0 = invmod_loop n (a mod n) 0 (1 - (a div n) * 0)"
    using assms by (subst invmod_loop.simps) simp
  then have "fst (invmod_loop a n 1 0) = gcd n (a mod n)"
    using assms by (simp add: invmod_loop_gcd)
  also have "\<dots> = gcd a n" by (metis gcd_red_int)
  finally show ?thesis .
qed

lemma long_invmod_Some:
  assumes "0 < n" "long_invmod a n = Some b"
  shows "gcd a n = 1" and "(b * a) mod n = 1 mod n"
proof -
  obtain a' b' where r: "invmod_loop a n 1 0 = (a', b')" by (cases "invmod_loop a n 1 0")
  with assms(2) have a': "a' = 1" and b': "b' = b"
    by (auto simp: long_invmod_def split: if_splits)
  from long_invmod_gcd[OF assms(1), of a] r a' show "gcd a n = 1" by simp
  have "(b' * a) mod n = a' mod n"
    by (rule invmod_loop_bezout[OF r]) simp_all
  with a' b' show "(b * a) mod n = 1 mod n" by simp
qed

lemma long_invmod_coprime:
  assumes "0 < n" "gcd a n = 1"
  shows "\<exists>b. long_invmod a n = Some b"
proof -
  obtain a' b' where r: "invmod_loop a n 1 0 = (a', b')" by (cases "invmod_loop a n 1 0")
  from long_invmod_gcd[OF assms(1), of a] r assms(2) have "a' = 1" by simp
  with r show ?thesis by (simp add: long_invmod_def)
qed

lemma py_pow_nonneg:
  "m \<noteq> 0 \<Longrightarrow> 0 \<le> e \<Longrightarrow> py_pow b e m = Inr (b ^ nat e mod m)"
  by (simp add: py_pow_def)

lemma py_pow_inverse:
  assumes "0 < n" "py_pow a (- 1) n = Inr i"
  shows "gcd a n = 1" and "(i * a) mod n = 1 mod n" and "0 \<le> i" and "i < n"
proof -
  from assms obtain b where b: "long_invmod a n = Some b" and i: "i = b mod n"
    by (auto simp: py_pow_def split: option.splits)
  from long_invmod_Some[OF assms(1) b] show "gcd a n = 1" by simp
  have "(i * a) mod n = (b * a) mod n" by (simp add: i mod_mult_left_eq)
  with long_invmod_Some(2)[OF assms(1) b] show "(i * a) mod n = 1 mod n" by simp
  from assms(1) i show "0 \<le> i" "i < n" by simp_all
qed

lemma py_pow_inverse_coprime:
  assumes "0 < n" "gcd a n = 1"
  shows "\<exists>i. py_pow a (- 1) n = Inr i"
proof -
  from long_invmod_coprime[OF assms] obtain b where "long_invmod a n = Some b" ..
  with assms(1) show ?thesis by (simp add: py_pow_def)
qed

lemma lcm_p_eq:
  assumes "a \<noteq> 0"
  shows "lcm_p a b = Inr (lcm a b)"
proof -
  have "gcd a b dvd a * b" by simp
  then have "\<bar>a * b div gcd a b\<bar> = \<bar>a * b\<bar> div \<bar>gcd a b\<bar>" by (rule abs_div)
  then show ?thesis using assms by (simp add: lcm_p_def lcm_gcd)
qed

lemma keypair_facts:
  assumes p: "1 < p" and q: "1 < q" and k: "keypair_of_primes p q = Inr (pub, priv)"
  shows "pub_n pub = p * q" and "pub_g pub = p * q + 1" and "priv_n priv = p * q"
    and "priv_lam priv = lcm (p - 1) (q - 1)"
    and "(priv_lam priv * priv_mu priv) mod (p * q) = 1"
    and "coprime (priv_lam priv) (p * q)"
proof -
  define n where "n = p * q"
  define lam where "lam = lcm (p - 1) (q - 1)"
  have n: "1 < n" using p q unfolding n_def by (metis less_1_mult)
  have lam: "0 \<le> lam" by (simp add: lam_def)
  have l: "lcm_p (p - 1) (q - 1) = Inr lam" using p by (simp add: lcm_p_eq lam_def)
  have x: "py_pow (n + 1) lam (n * n) = Inr (1 + (lam mod n) * n)"
    using n lam by (simp add: py_pow_nonneg g_power_mod_sq one_plus_mod_sq)
  have lv: "((1 + (lam mod n) * n) - 1) div n = lam mod n" using n by simp
  from k obtain mu where mu: "py_pow (lam mod n) (- 1) n = Inr mu"
    and pub: "pub = \<lparr>pub_n = n, pub_g = n + 1\<rparr>"
    and priv: "priv = \<lparr>priv_lam = lam, priv_mu = mu, priv_n = n\<rparr>"
    unfolding keypair_of_primes_def Let_def n_def[symmetric] l sum.case x lv
    by (auto split: sum.splits)
  from pub show "pub_n pub = p * q" "pub_g pub = p * q + 1" by (simp_all add: n_def)
  from priv show "priv_n priv = p * q" "priv_lam priv = lcm (p - 1) (q - 1)"
    by (simp_all add: n_def lam_def)
  from n have n0: "0 < n" by simp
  have "(mu * (lam mod n)) mod n = 1 mod n" using py_pow_inverse(2)[OF n0 mu] .
  then have "(lam * mu) mod n = 1" using n by (simp add: mod_mult_right_eq mult.commute)
  then show "(priv_lam priv * priv_mu priv) mod (p * q) = 1" by (simp add: priv n_def)
  have "gcd (lam mod n) n = 1" using py_pow_inverse(1)[OF n0 mu] .
  then have "gcd lam n = 1" by (metis gcd.commute gcd_red_int)
  then show "coprime (priv_lam priv) (p * q)"
    by (simp add: priv n_def coprime_iff_gcd_eq_1)
qed

section \<open>Correctness of the cryptosystem\<close>

lemma decrypt_ciphertext_form:
  assumes pp: "is_prime p" and pq: "is_prime q" and ne: "p \<noteq> q"
    and k: "keypair_of_primes p q = Inr (pub, priv)"
    and c: "c mod (p * q * (p * q)) = ((p * q + 1) ^ M * R ^ nat (p * q)) mod (p * q * (p * q))"
    and R: "coprime R (p * q)"
  shows "decrypt priv c = Inr (int M mod (p * q))"
proof -
  from pp pq have p: "1 < p" and q: "1 < q" by (auto simp: is_prime_def)
  define n where "n = p * q"
  define lam where "lam = priv_lam priv"
  define mu where "mu = priv_mu priv"
  note kf = keypair_facts[OF p q k]
  have n: "1 < n" using p q unfolding n_def by (metis less_1_mult)
  have pn: "priv_n priv = n" using kf(3) by (simp add: n_def)
  have lam_eq: "lam = lcm (p - 1) (q - 1)" using kf(4) by (simp add: lam_def)
  then have lam0: "0 \<le> lam" by simp
  have inv: "(lam * mu) mod n = 1" using kf(5) by (simp add: lam_def mu_def n_def)
  have car: "R ^ nat lam mod n = 1"
    unfolding n_def
    by (rule carmichael_two_primes[OF pp pq ne R]) (simp_all add: lam_eq)
  have c': "c mod (n * n) = ((n + 1) ^ M * R ^ nat n) mod (n * n)"
    using c by (simp add: n_def)
  have "c ^ nat lam mod (n * n) = (c mod (n * n)) ^ nat lam mod (n * n)"
    by (simp only: power_mod)
  also have "\<dots> = ((n + 1) ^ M * R ^ nat n) ^ nat lam mod (n * n)"
    by (simp only: c' power_mod)
  also have "((n + 1) ^ M * R ^ nat n) ^ nat lam = (n + 1) ^ (M * nat lam) * (R ^ nat lam) ^ nat n"
    by (simp add: power_mult_distrib power_mult[symmetric] mult.commute)
  also have "\<dots> mod (n * n)
      = (((n + 1) ^ (M * nat lam) mod (n * n)) * ((R ^ nat lam) ^ nat n mod (n * n))) mod (n * n)"
    by (simp only: mod_mult_eq)
  also have "(R ^ nat lam) ^ nat n mod (n * n) = 1"
    using car n by (rule lift_one_mod_sq)
  also have "(n + 1) ^ (M * nat lam) mod (n * n) = (1 + int (M * nat lam) * n) mod (n * n)"
    by (rule g_power_mod_sq)
  finally have x: "c ^ nat lam mod (n * n) = (1 + (int M * lam) * n) mod (n * n)"
    using lam0 by simp
  have pw: "py_pow c lam (n * n) = Inr ((1 + (int M * lam) * n) mod (n * n))"
    using n lam0 x by (simp add: py_pow_nonneg)
  have "((int M * lam) mod n * mu) mod n = (int M * (lam * mu)) mod n"
    by (simp add: mod_mult_left_eq mult.assoc)
  also have "\<dots> = (int M * ((lam * mu) mod n)) mod n"
    by (simp only: mod_mult_right_eq)
  also have "\<dots> = int M mod n" by (simp add: inv)
  finally have res: "((int M * lam) mod n * mu) mod n = int M mod n" .
  have "decrypt priv c = Inr ((((1 + (int M * lam) * n) mod (n * n) - 1) div n * mu) mod n)"
    using n pw by (simp add: decrypt_def priv_n_sq_def pn lam_def[symmetric] mu_def[symmetric])
  also have "((1 + (int M * lam) * n) mod (n * n) - 1) div n = (int M * lam) mod n"
    using n by (rule L_of_one_plus)
  finally show ?thesis using res by (simp add: n_def)
qed

lemma encrypt_supplied:
  assumes "0 \<le> m" "m < pub_n pub"
  shows "encrypt pub m (Some r) t =
    Some (Inr (((pub_g pub ^ nat m mod pub_n_sq pub) * (r ^ nat (pub_n pub) mod pub_n_sq pub))
                 mod pub_n_sq pub))"
proof -
  from assms have "0 < pub_n pub" by simp
  then have "pub_n_sq pub \<noteq> 0" "0 \<le> pub_n pub" by (simp_all add: pub_n_sq_def)
  with assms show ?thesis by (simp add: encrypt_def py_pow_nonneg)
qed

lemma draw_r_find: "draw_r n t = List.find (admissible n) t"
  by (induction t) (simp_all add: admissible_def)

lemma encrypt_drawn:
  assumes "0 \<le> m" "m < pub_n pub"
  shows "encrypt pub m None t =
    (case List.find (admissible (pub_n pub)) t of
       None \<Rightarrow> None
     | Some r \<Rightarrow> encrypt pub m (Some r) t)"
  using assms by (simp add: encrypt_def draw_r_find split: option.splits)

lemma coprime_admissible: "admissible n r \<Longrightarrow> coprime r n"
  by (simp add: admissible_def coprime_iff_gcd_eq_1)

lemma encrypt_form:
  fixes n :: int
  shows "(((n + 1) ^ M mod (n * n)) * (r ^ nat n mod (n * n))) mod (n * n) mod (n * n)
      = ((n + 1) ^ M * r ^ nat n) mod (n * n)"
  by (simp add: mod_mult_eq)

lemma roundtrip_core:
  assumes "is_prime p" and "is_prime q" and "p \<noteq> q"
    and "keypair_of_primes p q = Inr (pub, priv)"
    and "0 \<le> m" and "m < pub_n pub" and "admissible (pub_n pub) r"
  shows "\<exists>c. encrypt pub m (Some r) t = Some (Inr c) \<and> decrypt priv c = Inr m"
proof -
  from assms(1,2) have p: "1 < p" and q: "1 < q" by (auto simp: is_prime_def)
  note kf = keypair_facts[OF p q assms(4)]
  define n where "n = p * q"
  define c where "c = (((n + 1) ^ nat m mod (n * n)) * (r ^ nat n mod (n * n))) mod (n * n)"
  have e: "encrypt pub m (Some r) t = Some (Inr c)"
    using encrypt_supplied[OF assms(5,6), of r t] kf(1,2)
    by (simp add: c_def n_def pub_n_sq_def)
  have "c mod (n * n) = ((n + 1) ^ nat m * r ^ nat n) mod (n * n)"
    unfolding c_def by (rule encrypt_form)
  moreover have "coprime r n"
    using coprime_admissible[OF assms(7)] by (simp only: kf(1) n_def)
  ultimately have "decrypt priv c = Inr (int (nat m) mod (p * q))"
    unfolding n_def by (intro decrypt_ciphertext_form[OF assms(1-4)])
  with assms(5,6) kf(1) have "decrypt priv c = Inr m" by simp
  with e show ?thesis by blast
qed

lemma homomorphic_core:
  assumes "is_prime p" and "is_prime q" and "p \<noteq> q"
    and "keypair_of_primes p q = Inr (pub, priv)"
    and "0 \<le> m1" and "m1 < pub_n pub" and "0 \<le> m2" and "m2 < pub_n pub"
    and "m1 + m2 < pub_n pub"
    and "admissible (pub_n pub) r1" and "admissible (pub_n pub) r2"
  shows "\<exists>c1 c2 c3. encrypt pub m1 (Some r1) t1 = Some (Inr c1)
      \<and> encrypt pub m2 (Some r2) t2 = Some (Inr c2)
      \<and> add pub c1 c2 = Inr c3
      \<and> decrypt priv c3 = Inr (m1 + m2)"
proof -
  from assms(1,2) have p: "1 < p" and q: "1 < q" by (auto simp: is_prime_def)
  note kf = keypair_facts[OF p q assms(4)]
  define n where "n = p * q"
  have n: "1 < n" using p q unfolding n_def by (metis less_1_mult)
  define c1 where "c1 = (((n + 1) ^ nat m1 mod (n * n)) * (r1 ^ nat n mod (n * n))) mod (n * n)"
  define c2 where "c2 = (((n + 1) ^ nat m2 mod (n * n)) * (r2 ^ nat n mod (n * n))) mod (n * n)"
  define c3 where "c3 = (c1 * c2) mod (n * n)"
  have e1: "encrypt pub m1 (Some r1) t1 = Some (Inr c1)"
    using encrypt_supplied[OF assms(5,6), of r1 t1] kf(1,2)
    by (simp add: c1_def n_def pub_n_sq_def)
  have e2: "encrypt pub m2 (Some r2) t2 = Some (Inr c2)"
    using encrypt_supplied[OF assms(7,8), of r2 t2] kf(1,2)
    by (simp add: c2_def n_def pub_n_sq_def)
  have a: "add pub c1 c2 = Inr c3"
    using n kf(1) by (simp add: add_def pub_n_sq_def c3_def n_def[symmetric])
  have f1: "c1 mod (n * n) = ((n + 1) ^ nat m1 * r1 ^ nat n) mod (n * n)"
    unfolding c1_def by (rule encrypt_form)
  have f2: "c2 mod (n * n) = ((n + 1) ^ nat m2 * r2 ^ nat n) mod (n * n)"
    unfolding c2_def by (rule encrypt_form)
  have "c3 mod (n * n) = ((c1 mod (n * n)) * (c2 mod (n * n))) mod (n * n)"
    unfolding c3_def by (simp add: mod_mult_eq)
  also have "\<dots> = (((n + 1) ^ nat m1 * r1 ^ nat n) * ((n + 1) ^ nat m2 * r2 ^ nat n)) mod (n * n)"
    unfolding f1 f2 by (simp only: mod_mult_eq)
  also have "((n + 1) ^ nat m1 * r1 ^ nat n) * ((n + 1) ^ nat m2 * r2 ^ nat n)
      = (n + 1) ^ (nat m1 + nat m2) * (r1 * r2) ^ nat n"
    by (simp add: power_add power_mult_distrib)
  finally have f3: "c3 mod (n * n) = ((n + 1) ^ (nat m1 + nat m2) * (r1 * r2) ^ nat n) mod (n * n)" .
  have "coprime r1 n" "coprime r2 n"
    using coprime_admissible[OF assms(10)] coprime_admissible[OF assms(11)]
    by (simp_all only: kf(1) n_def)
  then have "coprime (r1 * r2) n" by simp
  with f3 have "decrypt priv c3 = Inr (int (nat m1 + nat m2) mod (p * q))"
    unfolding n_def by (intro decrypt_ciphertext_form[OF assms(1-4)])
  with assms(5,7,9) kf(1) have "decrypt priv c3 = Inr (m1 + m2)" by simp
  with e1 e2 a show ?thesis by blast
qed

lemma plaintext_core:
  assumes "is_prime p" and "is_prime q" and "p \<noteq> q"
    and "keypair_of_primes p q = Inr (pub, priv)"
    and "0 \<le> m1" and "m1 < pub_n pub" and "0 \<le> m2" and "m2 < pub_n pub"
    and "m1 + m2 < pub_n pub"
    and "admissible (pub_n pub) r"
  shows "\<exists>c1 c2. encrypt pub m1 (Some r) t = Some (Inr c1)
      \<and> add_plain pub c1 m2 = Inr c2
      \<and> c2 = (c1 * (pub_g pub ^ nat m2 mod pub_n_sq pub)) mod pub_n_sq pub
      \<and> decrypt priv c2 = Inr (m1 + m2)"
proof -
  from assms(1,2) have p: "1 < p" and q: "1 < q" by (auto simp: is_prime_def)
  note kf = keypair_facts[OF p q assms(4)]
  define n where "n = p * q"
  have n: "1 < n" using p q unfolding n_def by (metis less_1_mult)
  define c1 where "c1 = (((n + 1) ^ nat m1 mod (n * n)) * (r ^ nat n mod (n * n))) mod (n * n)"
  define c2 where "c2 = (c1 * ((n + 1) ^ nat m2 mod (n * n))) mod (n * n)"
  have e1: "encrypt pub m1 (Some r) t = Some (Inr c1)"
    using encrypt_supplied[OF assms(5,6), of r t] kf(1,2)
    by (simp add: c1_def n_def pub_n_sq_def)
  have a: "add_plain pub c1 m2 = Inr c2"
    using n kf(1,2) assms(7)
    by (simp add: add_plain_def pub_n_sq_def c2_def n_def[symmetric] py_pow_nonneg)
  have g: "c2 = (c1 * (pub_g pub ^ nat m2 mod pub_n_sq pub)) mod pub_n_sq pub"
    using kf(1,2) by (simp add: c2_def pub_n_sq_def n_def)
  have f1: "c1 mod (n * n) = ((n + 1) ^ nat m1 * r ^ nat n) mod (n * n)"
    unfolding c1_def by (rule encrypt_form)
  have "c2 mod (n * n) = ((c1 mod (n * n)) * (n + 1) ^ nat m2) mod (n * n)"
    unfolding c2_def by (simp add: mod_mult_eq mod_mult_left_eq mod_mult_right_eq)
  also have "\<dots> = (((n + 1) ^ nat m1 * r ^ nat n) * (n + 1) ^ nat m2) mod (n * n)"
    unfolding f1 by (simp only: mod_mult_left_eq)
  also have "((n + 1) ^ nat m1 * r ^ nat n) * (n + 1) ^ nat m2
      = (n + 1) ^ (nat m1 + nat m2) * r ^ nat n"
    by (simp add: power_add)
  finally have f2: "c2 mod (n * n) = ((n + 1) ^ (nat m1 + nat m2) * r ^ nat n) mod (n * n)" .
  have "coprime r n"
    using coprime_admissible[OF assms(10)] by (simp only: kf(1) n_def)
  with f2 have "decrypt priv c2 = Inr (int (nat m1 + nat m2) mod (p * q))"
    unfolding n_def by (intro decrypt_ciphertext_form[OF assms(1-4)])
  with assms(5,7,9) kf(1) have "decrypt priv c2 = Inr (m1 + m2)" by simp
  with e1 a g show ?thesis by blast
qed

lemma is_probable_prime_ge2: "is_probable_prime n k t = Some True \<Longrightarrow> 2 \<le> n"
  by (auto simp: is_probable_prime_def split: if_splits)

lemma generate_prime_ge2: "generate_prime bits ts = Some (Inr p) \<Longrightarrow> 2 \<le> p"
proof (induction ts)
  case Nil
  then show ?case by (simp split: if_splits)
next
  case (Cons a ts)
  obtain rb bases where a: "a = (rb, bases)" by (cases a)
  from Cons.prems show ?case
    unfolding a
    by (auto simp: Let_def split: if_splits option.splits bool.splits
        dest: is_probable_prime_ge2 Cons.IH)
qed

lemma generate_keypair_of_draws:
  assumes "generate_prime (bits div 2) tp = Some (Inr p)"
    and "generate_prime (bits div 2) tq = Some (Inr q)"
  shows "generate_keypair bits tp tq = Some (keypair_of_primes p q)"
  using assms by (simp add: generate_keypair_def)

text \<open>
  Claim C2. For a key pair that \<open>generate_keypair\<close> returns from two distinct primes
  \<open>p\<close> and \<open>q\<close>, every message \<open>m\<close> in \<open>[0, n)\<close> and every randomness \<open>r\<close> in
  \<open>[1, n)\<close> coprime to \<open>n\<close>: \<open>encrypt\<close> returns a ciphertext and \<open>decrypt\<close> gives
  \<open>m\<close> back.
\<close>

theorem decrypt_encrypt_roundtrip:
  assumes "generate_prime (bits div 2) tp = Some (Inr p)"
    and "generate_prime (bits div 2) tq = Some (Inr q)"
    and "generate_keypair bits tp tq = Some (Inr (pub, priv))"
    and "is_prime p" and "is_prime q" and "p \<noteq> q"
    and "0 \<le> m" and "m < pub_n pub" and "admissible (pub_n pub) r"
  shows "\<exists>c. encrypt pub m (Some r) t = Some (Inr c) \<and> decrypt priv c = Inr m"
proof -
  from assms(1-3) have "keypair_of_primes p q = Inr (pub, priv)"
    by (simp add: generate_keypair_of_draws)
  from roundtrip_core[OF assms(4-6) this assms(7-9)] show ?thesis .
qed

text \<open>
  Claim C1. For such a key pair, messages \<open>m1\<close>, \<open>m2\<close> in \<open>[0, n)\<close> with
  \<open>m1 + m2 < n\<close> and admissible randomness for each encryption: decrypting the
  \<open>add\<close> of the two ciphertexts gives \<open>m1 + m2\<close>.
\<close>

theorem homomorphic_addition:
  assumes "generate_prime (bits div 2) tp = Some (Inr p)"
    and "generate_prime (bits div 2) tq = Some (Inr q)"
    and "generate_keypair bits tp tq = Some (Inr (pub, priv))"
    and "is_prime p" and "is_prime q" and "p \<noteq> q"
    and "0 \<le> m1" and "m1 < pub_n pub" and "0 \<le> m2" and "m2 < pub_n pub"
    and "m1 + m2 < pub_n pub"
    and "admissible (pub_n pub) r1" and "admissible (pub_n pub) r2"
  shows "\<exists>c1 c2 c3. encrypt pub m1 (Some r1) t1 = Some (Inr c1)
      \<and> encrypt pub m2 (Some r2) t2 = Some (Inr c2)
      \<and> add pub c1 c2 = Inr c3
      \<and> decrypt priv c3 = Inr (m1 + m2)"
proof -
  from assms(1-3) have "keypair_of_primes p q = Inr (pub, priv)"
    by (simp add: generate_keypair_of_draws)
  from homomorphic_core[OF assms(4-6) this assms(7-13)] show ?thesis .
qed

text \<open>
  Claim C9. For such a key pair, \<open>m1\<close>, \<open>m2\<close> in \<open>[0, n)\<close> with \<open>m1 + m2 < n\<close> and
  admissible randomness: \<open>add_plain(pub, c, m2)\<close> is \<open>(c * (g^m2 mod n_sq)) mod n_sq\<close>,
  and decrypting it for \<open>c = encrypt(pub, m1)\<close> gives \<open>m1 + m2\<close>.
\<close>

theorem plaintext_addition:
  assumes "generate_prime (bits div 2) tp = Some (Inr p)"
    and "generate_prime (bits div 2) tq = Some (Inr q)"
    and "generate_keypair bits tp tq = Some (Inr (pub, priv))"
    and "is_prime p" and "is_prime q" and "p \<noteq> q"
    and "0 \<le> m1" and "m1 < pub_n pub" and "0 \<le> m2" and "m2 < pub_n pub"
    and "m1 + m2 < pub_n pub"
    and "admissible (pub_n pub) r"
  shows "\<exists>c1 c2. encrypt pub m1 (Some r) t = Some (Inr c1)
      \<and> add_plain pub c1 m2 = Inr c2
      \<and> c2 = (c1 * (pub_g pub ^ nat m2 mod pub_n_sq pub)) mod pub_n_sq pub
      \<and> decrypt priv c2 = Inr (m1 + m2)"
proof -
  from assms(1-3) have "keypair_of_primes p q = Inr (pub, priv)"
    by (simp add: generate_keypair_of_draws)
  from plaintext_core[OF assms(4-6) this assms(7-12)] show ?thesis .
qed

lemma generated_private_key_valid:
  assumes "generate_prime (bits div 2) tp = Some (Inr p)"
    and "generate_prime (bits div 2) tq = Some (Inr q)"
    and "generate_keypair bits tp tq = Some (Inr (pub, priv))"
  shows "0 < priv_n priv" and "0 \<le> priv_lam priv"
proof -
  from generate_prime_ge2[OF assms(1)] generate_prime_ge2[OF assms(2)]
  have p: "1 < p" and q: "1 < q" by simp_all
  from assms have k: "keypair_of_primes p q = Inr (pub, priv)"
    by (simp add: generate_keypair_of_draws)
  note kf = keypair_facts[OF p q k]
  from p q have "0 < p * q" by simp
  with kf(3) show "0 < priv_n priv" by simp
  from kf(4) show "0 \<le> priv_lam priv" by simp
qed

text \<open>
  Claim C8. For a private key with a positive modulus and a non-negative exponent
  \<open>lam\<close>, \<open>decrypt\<close> raises on no integer \<open>c\<close> at all, well-formed ciphertext or not,
  and its result lies in \<open>[0, n)\<close>.
\<close>

theorem decrypt_total:
  assumes "0 < priv_n priv" and "0 \<le> priv_lam priv"
  shows "\<exists>m. decrypt priv c = Inr m \<and> 0 \<le> m \<and> m < priv_n priv"
proof -
  from assms(1) have "priv_n_sq priv \<noteq> 0" by (simp add: priv_n_sq_def)
  with assms show ?thesis
    by (simp add: decrypt_def py_pow_nonneg Let_def)
qed

text \<open>
  Claim C7. \<open>encrypt\<close> raises \<open>ValueError("message out of range")\<close> exactly when \<open>m\<close>
  is outside \<open>[0, n)\<close>. For \<open>m\<close> inside, a supplied \<open>r\<close> gives
  \<open>(g^m mod n_sq) * (r^n mod n_sq) mod n_sq\<close>; without one, the value used is the first
  drawn value in \<open>[1, n)\<close> that is coprime to \<open>n\<close>, and the loop goes on as long as no
  such value is drawn.
\<close>

theorem encrypt_range_and_value:
  "(encrypt pub m r t = Some (Inl (ValueError ''message out of range'')))
      = (\<not> (0 \<le> m \<and> m < pub_n pub))
   \<and> (0 \<le> m \<and> m < pub_n pub \<longrightarrow>
        encrypt pub m (Some r') t =
          Some (Inr (((pub_g pub ^ nat m mod pub_n_sq pub) * (r' ^ nat (pub_n pub) mod pub_n_sq pub))
                       mod pub_n_sq pub)))
   \<and> (0 \<le> m \<and> m < pub_n pub \<longrightarrow>
        encrypt pub m None t =
          (case List.find (admissible (pub_n pub)) t of
             None \<Rightarrow> None
           | Some r' \<Rightarrow>
               Some (Inr (((pub_g pub ^ nat m mod pub_n_sq pub) * (r' ^ nat (pub_n pub) mod pub_n_sq pub))
                            mod pub_n_sq pub))))"
proof (intro conjI impI)
  show "(encrypt pub m r t = Some (Inl (ValueError ''message out of range'')))
      = (\<not> (0 \<le> m \<and> m < pub_n pub))"
  proof (cases "0 \<le> m \<and> m < pub_n pub")
    case False
    then show ?thesis by (simp add: encrypt_def)
  next
    case True
    show ?thesis
    proof (cases r)
      case (Some r')
      with True show ?thesis by (simp add: encrypt_supplied)
    next
      case None
      with True show ?thesis
        by (simp add: encrypt_drawn encrypt_supplied split: option.splits)
    qed
  qed
next
  assume "0 \<le> m \<and> m < pub_n pub"
  then show "encrypt pub m (Some r') t =
          Some (Inr (((pub_g pub ^ nat m mod pub_n_sq pub) * (r' ^ nat (pub_n pub) mod pub_n_sq pub))
                       mod pub_n_sq pub))"
    by (simp add: encrypt_supplied)
next
  assume "0 \<le> m \<and> m < pub_n pub"
  then show "encrypt pub m None t =
          (case List.find (admissible (pub_n pub)) t of
             None \<Rightarrow> None
           | Some r' \<Rightarrow>
               Some (Inr (((pub_g pub ^ nat m mod pub_n_sq pub) * (r' ^ nat (pub_n pub) mod pub_n_sq pub))
                            mod pub_n_sq pub)))"
    by (simp add: encrypt_drawn encrypt_supplied split: option.splits)
qed

section \<open>The theorems on the key pair of the primes 5 and 7\<close>

lemma draw5: "generate_prime (6 div 2) [(0, [])] = Some (Inr 5)"
  by (simp add: is_probable_prime_def small_primes_def)

lemma draw7: "generate_prime (6 div 2) [(2, [])] = Some (Inr 7)"
  by (simp add: is_probable_prime_def small_primes_def)

lemma keypair_5_7:
  "keypair_of_primes 5 7
     = Inr (\<lparr>pub_n = 35, pub_g = 36\<rparr>, \<lparr>priv_lam = 12, priv_mu = 3, priv_n = 35\<rparr>)"
  by code_simp

lemma generate_keypair_5_7:
  "generate_keypair 6 [(0, [])] [(2, [])]
     = Some (Inr (\<lparr>pub_n = 35, pub_g = 36\<rparr>, \<lparr>priv_lam = 12, priv_mu = 3, priv_n = 35\<rparr>))"
  using generate_keypair_of_draws[OF draw5 draw7] by (simp only: keypair_5_7)

lemma is_prime_5: "is_prime 5" by code_simp
lemma is_prime_7: "is_prime 7" by code_simp
lemma admissible_35_2: "admissible 35 2" by code_simp
lemma admissible_35_3: "admissible 35 3" by code_simp
lemma admissible_35_4: "admissible 35 4" by code_simp

lemma encrypt_7_2: "encrypt \<lparr>pub_n = 35, pub_g = 36\<rparr> 7 (Some 2) [] = Some (Inr 753)"
  by (simp add: encrypt_def py_pow_def pub_n_sq_def)
lemma encrypt_3_2: "encrypt \<lparr>pub_n = 35, pub_g = 36\<rparr> 3 (Some 2) [] = Some (Inr 683)"
  by (simp add: encrypt_def py_pow_def pub_n_sq_def)
lemma encrypt_4_3: "encrypt \<lparr>pub_n = 35, pub_g = 36\<rparr> 4 (Some 3) [] = Some (Inr 1062)"
  by (simp add: encrypt_def py_pow_def pub_n_sq_def)

theorem decrypt_encrypt_roundtrip_witness:
  "generate_prime (6 div 2) [(0, [])] = Some (Inr 5)
   \<and> generate_prime (6 div 2) [(2, [])] = Some (Inr 7)
   \<and> generate_keypair 6 [(0, [])] [(2, [])]
        = Some (Inr (\<lparr>pub_n = 35, pub_g = 36\<rparr>, \<lparr>priv_lam = 12, priv_mu = 3, priv_n = 35\<rparr>))
   \<and> is_prime 5 \<and> is_prime 7 \<and> (5::int) \<noteq> 7 \<and> admissible 35 2
   \<and> encrypt \<lparr>pub_n = 35, pub_g = 36\<rparr> 7 (Some 2) [] = Some (Inr 753)
   \<and> decrypt \<lparr>priv_lam = 12, priv_mu = 3, priv_n = 35\<rparr> 753 = Inr 7"
proof -
  have "\<exists>c. encrypt \<lparr>pub_n = 35, pub_g = 36\<rparr> 7 (Some 2) [] = Some (Inr c)
      \<and> decrypt \<lparr>priv_lam = 12, priv_mu = 3, priv_n = 35\<rparr> c = Inr 7"
    by (rule decrypt_encrypt_roundtrip[OF draw5 draw7 generate_keypair_5_7 is_prime_5 is_prime_7])
       (simp_all add: admissible_35_2)
  then have "decrypt \<lparr>priv_lam = 12, priv_mu = 3, priv_n = 35\<rparr> 753 = Inr 7"
    by (simp add: encrypt_7_2)
  then show ?thesis
    using draw5 draw7 generate_keypair_5_7 is_prime_5 is_prime_7 admissible_35_2 encrypt_7_2
    by simp
qed

theorem homomorphic_addition_witness:
  "generate_prime (6 div 2) [(0, [])] = Some (Inr 5)
   \<and> generate_prime (6 div 2) [(2, [])] = Some (Inr 7)
   \<and> generate_keypair 6 [(0, [])] [(2, [])]
        = Some (Inr (\<lparr>pub_n = 35, pub_g = 36\<rparr>, \<lparr>priv_lam = 12, priv_mu = 3, priv_n = 35\<rparr>))
   \<and> is_prime 5 \<and> is_prime 7 \<and> (5::int) \<noteq> 7 \<and> admissible 35 2 \<and> admissible 35 3
   \<and> encrypt \<lparr>pub_n = 35, pub_g = 36\<rparr> 3 (Some 2) [] = Some (Inr 683)
   \<and> encrypt \<lparr>pub_n = 35, pub_g = 36\<rparr> 4 (Some 3) [] = Some (Inr 1062)
   \<and> add \<lparr>pub_n = 35, pub_g = 36\<rparr> 683 1062 = Inr 146
   \<and> decrypt \<lparr>priv_lam = 12, priv_mu = 3, priv_n = 35\<rparr> 146 = Inr (3 + 4)"
proof -
  have a: "add \<lparr>pub_n = 35, pub_g = 36\<rparr> 683 1062 = Inr 146"
    by (simp add: add_def pub_n_sq_def)
  have "\<exists>c1 c2 c3. encrypt \<lparr>pub_n = 35, pub_g = 36\<rparr> 3 (Some 2) [] = Some (Inr c1)
      \<and> encrypt \<lparr>pub_n = 35, pub_g = 36\<rparr> 4 (Some 3) [] = Some (Inr c2)
      \<and> add \<lparr>pub_n = 35, pub_g = 36\<rparr> c1 c2 = Inr c3
      \<and> decrypt \<lparr>priv_lam = 12, priv_mu = 3, priv_n = 35\<rparr> c3 = Inr (3 + 4)"
    by (rule homomorphic_addition[OF draw5 draw7 generate_keypair_5_7 is_prime_5 is_prime_7])
       (simp_all add: admissible_35_2 admissible_35_3)
  then have "decrypt \<lparr>priv_lam = 12, priv_mu = 3, priv_n = 35\<rparr> 146 = Inr (3 + 4)"
    by (simp add: encrypt_3_2 encrypt_4_3 a)
  then show ?thesis
    using draw5 draw7 generate_keypair_5_7 is_prime_5 is_prime_7 admissible_35_2 admissible_35_3
      encrypt_3_2 encrypt_4_3 a
    by simp
qed

theorem plaintext_addition_witness:
  "generate_prime (6 div 2) [(0, [])] = Some (Inr 5)
   \<and> generate_prime (6 div 2) [(2, [])] = Some (Inr 7)
   \<and> generate_keypair 6 [(0, [])] [(2, [])]
        = Some (Inr (\<lparr>pub_n = 35, pub_g = 36\<rparr>, \<lparr>priv_lam = 12, priv_mu = 3, priv_n = 35\<rparr>))
   \<and> is_prime 5 \<and> is_prime 7 \<and> (5::int) \<noteq> 7 \<and> admissible 35 2
   \<and> encrypt \<lparr>pub_n = 35, pub_g = 36\<rparr> 3 (Some 2) [] = Some (Inr 683)
   \<and> add_plain \<lparr>pub_n = 35, pub_g = 36\<rparr> 683 4 = Inr 753
   \<and> decrypt \<lparr>priv_lam = 12, priv_mu = 3, priv_n = 35\<rparr> 753 = Inr (3 + 4)"
proof -
  have a: "add_plain \<lparr>pub_n = 35, pub_g = 36\<rparr> 683 4 = Inr 753"
    by (simp add: add_plain_def py_pow_def pub_n_sq_def)
  have "\<exists>c1 c2. encrypt \<lparr>pub_n = 35, pub_g = 36\<rparr> 3 (Some 2) [] = Some (Inr c1)
      \<and> add_plain \<lparr>pub_n = 35, pub_g = 36\<rparr> c1 4 = Inr c2
      \<and> c2 = (c1 * (pub_g \<lparr>pub_n = 35, pub_g = 36\<rparr> ^ nat 4 mod pub_n_sq \<lparr>pub_n = 35, pub_g = 36\<rparr>))
               mod pub_n_sq \<lparr>pub_n = 35, pub_g = 36\<rparr>
      \<and> decrypt \<lparr>priv_lam = 12, priv_mu = 3, priv_n = 35\<rparr> c2 = Inr (3 + 4)"
    by (rule plaintext_addition[OF draw5 draw7 generate_keypair_5_7 is_prime_5 is_prime_7])
       (simp_all add: admissible_35_2)
  then have "decrypt \<lparr>priv_lam = 12, priv_mu = 3, priv_n = 35\<rparr> 753 = Inr (3 + 4)"
    by (simp add: encrypt_3_2 a pub_n_sq_def)
  then show ?thesis
    using draw5 draw7 generate_keypair_5_7 is_prime_5 is_prime_7 admissible_35_2 encrypt_3_2 a
    by simp
qed

theorem decrypt_total_witness:
  "0 < priv_n \<lparr>priv_lam = 12, priv_mu = 3, priv_n = 35\<rparr>
   \<and> 0 \<le> priv_lam \<lparr>priv_lam = 12, priv_mu = 3, priv_n = 35\<rparr>
   \<and> (\<exists>m. decrypt \<lparr>priv_lam = 12, priv_mu = 3, priv_n = 35\<rparr> 1000 = Inr m \<and> 0 \<le> m
          \<and> m < priv_n \<lparr>priv_lam = 12, priv_mu = 3, priv_n = 35\<rparr>)"
proof -
  have h1: "0 < priv_n \<lparr>priv_lam = 12, priv_mu = 3, priv_n = 35\<rparr>" by simp
  have h2: "0 \<le> priv_lam \<lparr>priv_lam = 12, priv_mu = 3, priv_n = 35\<rparr>" by simp
  from decrypt_total[OF h1 h2, of 1000] h1 h2 show ?thesis by blast
qed

theorem encrypt_range_and_value_witness:
  "encrypt \<lparr>pub_n = 35, pub_g = 36\<rparr> 35 None [2] = Some (Inl (ValueError ''message out of range''))
   \<and> encrypt \<lparr>pub_n = 35, pub_g = 36\<rparr> 7 (Some 2) [0, 5, 2] = Some (Inr 753)
   \<and> encrypt \<lparr>pub_n = 35, pub_g = 36\<rparr> 7 None [0, 5, 2] = Some (Inr 753)
   \<and> encrypt \<lparr>pub_n = 35, pub_g = 36\<rparr> 7 None [0, 5] = None"
proof -
  have f: "List.find (admissible 35) [0, 5, 2] = Some 2" by code_simp
  have f': "List.find (admissible 35) [0, 5] = None" by code_simp
  have v: "((36::int) ^ nat 7 mod (35 * 35)) * (2 ^ nat 35 mod (35 * 35)) mod (35 * 35) = 753"
    by simp
  have a: "encrypt \<lparr>pub_n = 35, pub_g = 36\<rparr> 35 None [2] = Some (Inl (ValueError ''message out of range''))"
    using encrypt_range_and_value[of "\<lparr>pub_n = 35, pub_g = 36\<rparr>" 35 None "[2]"] by simp
  have b: "encrypt \<lparr>pub_n = 35, pub_g = 36\<rparr> 7 (Some 2) [0, 5, 2] = Some (Inr 753)"
    using encrypt_range_and_value[of "\<lparr>pub_n = 35, pub_g = 36\<rparr>" 7 None "[0, 5, 2]" 2] v
    by (simp add: pub_n_sq_def)
  have c: "encrypt \<lparr>pub_n = 35, pub_g = 36\<rparr> 7 None [0, 5, 2] = Some (Inr 753)"
    using encrypt_range_and_value[of "\<lparr>pub_n = 35, pub_g = 36\<rparr>" 7 None "[0, 5, 2]" 2] v f
    by (simp add: pub_n_sq_def)
  have d: "encrypt \<lparr>pub_n = 35, pub_g = 36\<rparr> 7 None [0, 5] = None"
    using encrypt_range_and_value[of "\<lparr>pub_n = 35, pub_g = 36\<rparr>" 7 None "[0, 5]" 2] f'
    by (simp add: pub_n_sq_def)
  from a b c d show ?thesis by simp
qed

section \<open>Key generation does not compare the primes\<close>

lemma coprime_pred_square:
  fixes p :: int
  shows "coprime (p - 1) (p * p)"
proof -
  have "coprime (p - 1) p" by (rule coprime_diff_one_left)
  then show ?thesis by simp
qed

lemma keypair_of_equal_primes:
  fixes p :: int
  assumes "1 < p"
  shows "\<exists>mu. keypair_of_primes p p
      = Inr (\<lparr>pub_n = p * p, pub_g = p * p + 1\<rparr>, \<lparr>priv_lam = p - 1, priv_mu = mu, priv_n = p * p\<rparr>)
    \<and> 0 \<le> mu \<and> mu < p * p \<and> (mu * (p - 1)) mod (p * p) = 1"
proof -
  define n where "n = p * p"
  have n: "1 < n" using assms unfolding n_def by (metis less_1_mult)
  have "p * 1 \<le> p * p" using assms by (intro mult_left_mono) simp_all
  then have "p - 1 < p * p" by linarith
  then have pn: "p - 1 < n" "0 \<le> p - 1" using assms by (simp_all only: n_def)
  have l: "lcm_p (p - 1) (p - 1) = Inr (p - 1)" using assms by (simp add: lcm_p_eq)
  have md: "(p - 1) mod n = p - 1" using pn by simp
  have x: "py_pow (n + 1) (p - 1) (n * n) = Inr (1 + (p - 1) * n)"
    using n assms md by (simp add: py_pow_nonneg g_power_mod_sq one_plus_mod_sq)
  have lv: "((1 + (p - 1) * n) - 1) div n = p - 1" using n by simp
  have "gcd (p - 1) n = 1"
    using coprime_pred_square[of p] by (simp add: n_def coprime_iff_gcd_eq_1)
  with n obtain mu where mu: "py_pow (p - 1) (- 1) n = Inr mu"
    using py_pow_inverse_coprime[of n "p - 1"] by auto
  from n have n0: "0 < n" by simp
  have "keypair_of_primes p p
      = Inr (\<lparr>pub_n = n, pub_g = n + 1\<rparr>, \<lparr>priv_lam = p - 1, priv_mu = mu, priv_n = n\<rparr>)"
    unfolding keypair_of_primes_def Let_def n_def[symmetric] l sum.case x lv mu by simp
  moreover have "(mu * (p - 1)) mod n = 1"
    using py_pow_inverse(2)[OF n0 mu] n by simp
  moreover have "0 \<le> mu" "mu < n" using py_pow_inverse(3,4)[OF n0 mu] by simp_all
  ultimately show ?thesis unfolding n_def by blast
qed

text \<open>
  Claim C6, as amended. \<open>generate_keypair\<close> does not compare the two primes: when both
  calls of \<open>_generate_prime\<close> return the same \<open>p\<close>, it does not fail but returns the key
  pair with \<open>n = p * p\<close>, \<open>g = n + 1\<close>, \<open>lam = p - 1\<close> and \<open>mu\<close> the inverse of
  \<open>p - 1\<close> modulo \<open>n\<close>.
\<close>

theorem generate_keypair_equal_primes:
  assumes "generate_prime (bits div 2) tp = Some (Inr p)"
    and "generate_prime (bits div 2) tq = Some (Inr p)"
  shows "\<exists>mu. generate_keypair bits tp tq
      = Some (Inr (\<lparr>pub_n = p * p, pub_g = p * p + 1\<rparr>,
                   \<lparr>priv_lam = p - 1, priv_mu = mu, priv_n = p * p\<rparr>))
    \<and> 0 \<le> mu \<and> mu < p * p \<and> (mu * (p - 1)) mod (p * p) = 1"
proof -
  from generate_prime_ge2[OF assms(1)] have "1 < p" by simp
  from keypair_of_equal_primes[OF this] generate_keypair_of_draws[OF assms]
  show ?thesis by auto
qed

lemma draw3a: "generate_prime (4 div 2) [(0, [])] = Some (Inr 3)"
  by (simp add: is_probable_prime_def small_primes_def)

lemma draw3b: "generate_prime (4 div 2) [(2, [])] = Some (Inr 3)"
  by (simp add: is_probable_prime_def small_primes_def)

lemma keypair_3_3:
  "keypair_of_primes 3 3
     = Inr (\<lparr>pub_n = 9, pub_g = 10\<rparr>, \<lparr>priv_lam = 2, priv_mu = 5, priv_n = 9\<rparr>)"
  by code_simp

text \<open>
  The claim as first stated fails: with \<open>bits = 4\<close> both candidates are
  \<open>randbits(2) | 1 | 2 = 3\<close>, a prime, and a key pair comes back.
\<close>

theorem generate_keypair_equal_primes_counterexample:
  "generate_prime (4 div 2) [(0, [])] = Some (Inr 3)
   \<and> generate_prime (4 div 2) [(2, [])] = Some (Inr 3)
   \<and> is_prime 3
   \<and> generate_keypair 4 [(0, [])] [(2, [])]
        = Some (Inr (\<lparr>pub_n = 9, pub_g = 10\<rparr>, \<lparr>priv_lam = 2, priv_mu = 5, priv_n = 9\<rparr>))"
proof -
  have "is_prime 3" by code_simp
  moreover have "generate_keypair 4 [(0, [])] [(2, [])]
        = Some (Inr (\<lparr>pub_n = 9, pub_g = 10\<rparr>, \<lparr>priv_lam = 2, priv_mu = 5, priv_n = 9\<rparr>))"
    using generate_keypair_of_draws[OF draw3a draw3b] by (simp only: keypair_3_3)
  ultimately show ?thesis using draw3a draw3b by simp
qed

theorem generate_keypair_equal_primes_witness:
  "generate_prime (4 div 2) [(0, [])] = Some (Inr 3)
   \<and> generate_prime (4 div 2) [(2, [])] = Some (Inr 3)
   \<and> (\<exists>mu. generate_keypair 4 [(0, [])] [(2, [])]
        = Some (Inr (\<lparr>pub_n = 3 * 3, pub_g = 3 * 3 + 1\<rparr>,
                     \<lparr>priv_lam = 3 - 1, priv_mu = mu, priv_n = 3 * 3\<rparr>))
      \<and> 0 \<le> mu \<and> mu < 3 * 3 \<and> (mu * (3 - 1)) mod (3 * 3) = 1)"
  using generate_keypair_equal_primes[OF draw3a draw3b] draw3a draw3b by blast

section \<open>The statements of the vote pipeline\<close>

lemma bind_err_Inl [simp]: "bind_err (Inl e) f = Inl e"
  by (simp add: bind_err_def)

lemma bind_err_Inr [simp]: "bind_err (Inr v) f = f v"
  by (simp add: bind_err_def)

lemma text_param_ok: "CHR 0x00 \<notin> set s \<Longrightarrow> text_param s = Inr s"
  by (simp add: text_param_def)

lemma text_param_bad: "CHR 0x00 \<in> set s \<Longrightarrow> \<exists>msg. text_param s = Inl (DBAPIError msg)"
  by (simp add: text_param_def)

lemma varchar_ok: "fits k s \<Longrightarrow> varchar k s = Inr (take k s)"
  by (auto simp: fits_def varchar_def)


lemma fits_no_nul: "fits k s \<Longrightarrow> CHR 0x00 \<notin> set s"
  by (simp add: fits_def)

text \<open>A value for a column: the text parameter, then the assignment.\<close>

lemma column_ok:
  "fits k s \<Longrightarrow> bind_err (text_param s) (\<lambda>x. bind_err (varchar k x) f) = f (take k s)"
  by (simp add: text_param_ok varchar_ok fits_no_nul)










section \<open>Recording a vote\<close>


lemma transaction_Inr: "block db = Inr (res, db') \<Longrightarrow> transaction db block = (Inr res, db')"
  by (simp add: transaction_def)









section \<open>Aggregating the votes\<close>









end
